theory Spec2Isabelle
  imports Main
begin

section \<open>Memory model\<close>

text \<open>
  The container is written against raw memory: \<open>ArrayPtr\<close> holds a \<open>Type*\<close> obtained from
  \<open>new Type[n]()\<close>, and \<open>SimpleVector\<close> reads and writes through that pointer and hands out
  pointers as iterators. The model keeps this explicit. A pointer is either \<open>nullptr\<close> or a
  block address together with an element offset; the heap maps block addresses to the arrays
  stored there. Element values are HOL values: moving an element is modelled as copying it
  (as it is for scalar element types), and the element type's \<open>operator==\<close> is HOL equality.

  The outcomes of the source are kept apart:
  \<^item> a C++ exception (\<open>std::out_of_range\<close>, \<open>std::bad_alloc\<close>, an exception leaving the element
    type's default constructor) is \<open>Throw\<close>, carrying the state at the point of the throw;
  \<^item> a failed \<open>assert\<close> (only when assertions are compiled in) is \<open>Abort\<close>;
  \<^item> undefined behaviour (a read or write outside a live array, arithmetic on unrelated
    pointers) is \<open>Undefined\<close>.
\<close>

type_synonym addr = nat

datatype ptr = Null | Ptr addr nat

datatype exn = OutOfRange | BadAlloc | CtorThrow

datatype ('s, 'r) result = Return 'r 's | Throw exn 's | Abort | Undefined

record 'a heap =
  cells :: "addr \<Rightarrow> 'a list option"
  next_addr :: addr
  avail :: nat

text \<open>\<open>size_t\<close> is taken to be 64 bits wide; arithmetic on it wraps.\<close>

definition SIZE_MOD :: nat where
  "SIZE_MOD = 2 ^ 64"

definition size_t :: "nat \<Rightarrow> nat" where
  "size_t n = n mod SIZE_MOD"

definition size_t_dec :: "nat \<Rightarrow> nat" where
  "size_t_dec n = (n + (SIZE_MOD - 1)) mod SIZE_MOD"

text \<open>
  No array has more than \<open>PTRDIFF_MAX\<close> elements: \<open>new Type[n]\<close> throws for a larger request,
  whatever memory is left.
\<close>

definition max_array_len :: nat where
  "max_array_len = 2 ^ 63 - 1"

text \<open>
  \<open>new Type[n]()\<close>: fails with \<open>std::bad_alloc\<close> when the request exceeds what the allocator
  can give, and with the element type's exception when its default constructor throws
  (\<open>ctor = None\<close>); otherwise a fresh block of \<open>n\<close> value-initialised elements. A failed
  \<open>new\<close> leaves the heap as it was.
\<close>

definition new_array :: "'a option \<Rightarrow> 'a heap \<Rightarrow> nat \<Rightarrow> exn + ('a heap \<times> ptr)" where
  "new_array ctor h n =
     (if max_array_len < n \<or> avail h < n then Inl BadAlloc
      else case ctor of
        None \<Rightarrow>
          (if n = 0
           then Inr (h\<lparr>cells := (cells h)(next_addr h \<mapsto> []), next_addr := Suc (next_addr h)\<rparr>,
                     Ptr (next_addr h) 0)
           else Inl CtorThrow)
      | Some d \<Rightarrow>
          Inr (h\<lparr>cells := (cells h)(next_addr h \<mapsto> replicate n d),
                  next_addr := Suc (next_addr h),
                  avail := avail h - n\<rparr>,
               Ptr (next_addr h) 0))"

text \<open>\<open>delete[] p\<close>: nothing for \<open>nullptr\<close>; undefined unless \<open>p\<close> is the start of a live block.\<close>

definition delete_array :: "'a heap \<Rightarrow> ptr \<Rightarrow> 'a heap option" where
  "delete_array h p =
     (case p of
        Null \<Rightarrow> Some h
      | Ptr a off \<Rightarrow>
          (case cells h a of
             None \<Rightarrow> None
           | Some xs \<Rightarrow>
               if off = 0
               then Some (h\<lparr>cells := (cells h)(a := None), avail := avail h + length xs\<rparr>)
               else None))"

text \<open>Reading and writing through a pointer; \<open>None\<close> is undefined behaviour.\<close>

definition rd :: "'a heap \<Rightarrow> ptr \<Rightarrow> 'a option" where
  "rd h p =
     (case p of
        Null \<Rightarrow> None
      | Ptr a i \<Rightarrow>
          (case cells h a of
             None \<Rightarrow> None
           | Some xs \<Rightarrow> if i < length xs then Some (xs ! i) else None))"

definition wr :: "'a heap \<Rightarrow> ptr \<Rightarrow> 'a \<Rightarrow> 'a heap option" where
  "wr h p x =
     (case p of
        Null \<Rightarrow> None
      | Ptr a i \<Rightarrow>
          (case cells h a of
             None \<Rightarrow> None
           | Some xs \<Rightarrow>
               if i < length xs then Some (h\<lparr>cells := (cells h)(a \<mapsto> xs[i := x])\<rparr>) else None))"

text \<open>
  Pointer arithmetic. Adding to \<open>nullptr\<close> gives a pointer that, like \<open>nullptr\<close>, can never be
  read or written; the model does not tell such pointers apart. Differences and order
  comparisons are defined inside one block (and between two null pointers) only.
\<close>

fun ptr_add :: "ptr \<Rightarrow> nat \<Rightarrow> ptr" where
  "ptr_add Null n = Null"
| "ptr_add (Ptr a i) n = Ptr a (i + n)"

fun ptr_dec :: "ptr \<Rightarrow> ptr option" where
  "ptr_dec (Ptr a (Suc i)) = Some (Ptr a i)"
| "ptr_dec _ = None"

fun ptr_diff :: "ptr \<Rightarrow> ptr \<Rightarrow> nat option" where
  "ptr_diff Null Null = Some 0"
| "ptr_diff (Ptr a i) (Ptr b j) = (if a = b \<and> j \<le> i then Some (i - j) else None)"
| "ptr_diff _ _ = None"

fun ptr_le :: "ptr \<Rightarrow> ptr \<Rightarrow> bool" where
  "ptr_le Null Null = True"
| "ptr_le (Ptr a i) (Ptr b j) = (a = b \<and> i \<le> j)"
| "ptr_le _ _ = False"

definition ptr_less :: "ptr \<Rightarrow> ptr \<Rightarrow> bool" where
  "ptr_less p q = (ptr_le p q \<and> p \<noteq> q)"

section \<open>The standard algorithms used by the container\<close>

text \<open>
  Each algorithm runs \<open>last - first\<close> times, as the random-access versions of the library do;
  a range whose ends are not in one block is undefined.
\<close>

fun fill_loop :: "nat \<Rightarrow> 'a heap \<Rightarrow> ptr \<Rightarrow> 'a \<Rightarrow> 'a heap option" where
  "fill_loop 0 h p x = Some h"
| "fill_loop (Suc n) h p x =
     (case wr h p x of
        None \<Rightarrow> None
      | Some h' \<Rightarrow> fill_loop n h' (ptr_add p 1) x)"

definition std_fill :: "'a heap \<Rightarrow> ptr \<Rightarrow> ptr \<Rightarrow> 'a \<Rightarrow> 'a heap option" where
  "std_fill h first lst x =
     (case ptr_diff lst first of
        None \<Rightarrow> None
      | Some n \<Rightarrow> fill_loop n h first x)"

fun copy_loop :: "nat \<Rightarrow> 'a heap \<Rightarrow> ptr \<Rightarrow> ptr \<Rightarrow> 'a heap option" where
  "copy_loop 0 h s d = Some h"
| "copy_loop (Suc n) h s d =
     (case rd h s of
        None \<Rightarrow> None
      | Some x \<Rightarrow>
          (case wr h d x of
             None \<Rightarrow> None
           | Some h' \<Rightarrow> copy_loop n h' (ptr_add s 1) (ptr_add d 1)))"

definition std_copy :: "'a heap \<Rightarrow> ptr \<Rightarrow> ptr \<Rightarrow> ptr \<Rightarrow> 'a heap option" where
  "std_copy h first lst d_first =
     (case ptr_diff lst first of
        None \<Rightarrow> None
      | Some n \<Rightarrow> copy_loop n h first d_first)"

fun copy_backward_loop :: "nat \<Rightarrow> 'a heap \<Rightarrow> ptr \<Rightarrow> ptr \<Rightarrow> 'a heap option" where
  "copy_backward_loop 0 h l d = Some h"
| "copy_backward_loop (Suc n) h l d =
     (case ptr_dec l of
        None \<Rightarrow> None
      | Some l' \<Rightarrow>
          (case ptr_dec d of
             None \<Rightarrow> None
           | Some d' \<Rightarrow>
               (case rd h l' of
                  None \<Rightarrow> None
                | Some x \<Rightarrow>
                    (case wr h d' x of
                       None \<Rightarrow> None
                     | Some h' \<Rightarrow> copy_backward_loop n h' l' d'))))"

definition std_copy_backward :: "'a heap \<Rightarrow> ptr \<Rightarrow> ptr \<Rightarrow> ptr \<Rightarrow> 'a heap option" where
  "std_copy_backward h first lst d_last =
     (case ptr_diff lst first of
        None \<Rightarrow> None
      | Some n \<Rightarrow> copy_backward_loop n h lst d_last)"

fun equal_loop :: "nat \<Rightarrow> 'a heap \<Rightarrow> ptr \<Rightarrow> ptr \<Rightarrow> bool option" where
  "equal_loop 0 h p q = Some True"
| "equal_loop (Suc n) h p q =
     (case rd h p of
        None \<Rightarrow> None
      | Some x \<Rightarrow>
          (case rd h q of
             None \<Rightarrow> None
           | Some y \<Rightarrow>
               if x = y then equal_loop n h (ptr_add p 1) (ptr_add q 1) else Some False))"

definition std_equal :: "'a heap \<Rightarrow> ptr \<Rightarrow> ptr \<Rightarrow> ptr \<Rightarrow> bool option" where
  "std_equal h first1 last1 first2 =
     (case ptr_diff last1 first1 of
        None \<Rightarrow> None
      | Some n \<Rightarrow> equal_loop n h first1 first2)"

fun lex_loop :: "nat \<Rightarrow> nat \<Rightarrow> ('a::ord) heap \<Rightarrow> ptr \<Rightarrow> ptr \<Rightarrow> bool option" where
  "lex_loop 0 n2 h p q = Some (n2 \<noteq> 0)"
| "lex_loop (Suc n1) 0 h p q = Some False"
| "lex_loop (Suc n1) (Suc n2) h p q =
     (case rd h p of
        None \<Rightarrow> None
      | Some x \<Rightarrow>
          (case rd h q of
             None \<Rightarrow> None
           | Some y \<Rightarrow>
               if x < y then Some True
               else if y < x then Some False
               else lex_loop n1 n2 h (ptr_add p 1) (ptr_add q 1)))"

definition std_lexicographical_compare ::
  "('a::ord) heap \<Rightarrow> ptr \<Rightarrow> ptr \<Rightarrow> ptr \<Rightarrow> ptr \<Rightarrow> bool option" where
  "std_lexicographical_compare h first1 last1 first2 last2 =
     (case ptr_diff last1 first1 of
        None \<Rightarrow> None
      | Some n1 \<Rightarrow>
          (case ptr_diff last2 first2 of
             None \<Rightarrow> None
           | Some n2 \<Rightarrow> lex_loop n1 n2 h first1 first2))"

section \<open>ArrayPtr\<close>

text \<open>
  The owning buffer: one raw pointer. (Member names carry the suffix \<open>_m\<close> where the
  source has a trailing underscore.)
\<close>

record ArrayPtr =
  raw_ptr_m :: ptr

text \<open>\<open>ArrayPtr(size_t size)\<close>: no allocation for size zero.\<close>

definition ArrayPtr_new :: "'a option \<Rightarrow> 'a heap \<Rightarrow> nat \<Rightarrow> exn + ('a heap \<times> ArrayPtr)" where
  "ArrayPtr_new ctor h n =
     (if n = 0 then Inr (h, \<lparr>raw_ptr_m = Null\<rparr>)
      else case new_array ctor h n of
        Inl e \<Rightarrow> Inl e
      | Inr (h', p) \<Rightarrow> Inr (h', \<lparr>raw_ptr_m = p\<rparr>))"

definition ArrayPtr_dtor :: "'a heap \<Rightarrow> ArrayPtr \<Rightarrow> 'a heap option" where
  "ArrayPtr_dtor h ap = delete_array h (raw_ptr_m ap)"

text \<open>\<open>operator[]\<close> yields the reference \<open>*(raw_ptr_ + index)\<close>; the model returns its address.\<close>

definition ArrayPtr_at :: "ArrayPtr \<Rightarrow> nat \<Rightarrow> ptr" where
  "ArrayPtr_at ap i = ptr_add (raw_ptr_m ap) i"

definition ArrayPtr_Get :: "ArrayPtr \<Rightarrow> ptr" where
  "ArrayPtr_Get ap = raw_ptr_m ap"

definition ArrayPtr_bool :: "ArrayPtr \<Rightarrow> bool" where
  "ArrayPtr_bool ap = (raw_ptr_m ap \<noteq> Null)"

text \<open>\<open>Release\<close> returns the old pointer and the emptied object.\<close>

definition ArrayPtr_Release :: "ArrayPtr \<Rightarrow> ptr \<times> ArrayPtr" where
  "ArrayPtr_Release ap = (raw_ptr_m ap, ap\<lparr>raw_ptr_m := Null\<rparr>)"

text \<open>\<open>a.swap(b)\<close> returns the new \<open>a\<close> and the new \<open>b\<close>.\<close>

definition ArrayPtr_swap :: "ArrayPtr \<Rightarrow> ArrayPtr \<Rightarrow> ArrayPtr \<times> ArrayPtr" where
  "ArrayPtr_swap this other =
     (this\<lparr>raw_ptr_m := raw_ptr_m other\<rparr>, other\<lparr>raw_ptr_m := raw_ptr_m this\<rparr>)"

section \<open>SimpleVector\<close>

record SimpleVector =
  items_m :: ArrayPtr
  size_m :: nat
  capacity_m :: nat

text \<open>
  \<open>assert(c)\<close> stops the program when \<open>c\<close> is false, unless \<open>NDEBUG\<close> is defined, in which
  case it is no code at all.
\<close>

definition assert_fails :: "bool \<Rightarrow> bool \<Rightarrow> bool" where
  "assert_fails ndebug c = (\<not> ndebug \<and> \<not> c)"

definition GetSize :: "SimpleVector \<Rightarrow> nat" where
  "GetSize v = size_m v"

definition GetCapacity :: "SimpleVector \<Rightarrow> nat" where
  "GetCapacity v = capacity_m v"

definition IsEmpty :: "SimpleVector \<Rightarrow> bool" where
  "IsEmpty v = (size_m v = 0)"

definition begin_it :: "SimpleVector \<Rightarrow> ptr" where
  "begin_it v = (if size_m v = 0 then Null else ArrayPtr_at (items_m v) 0)"

definition end_it :: "SimpleVector \<Rightarrow> ptr" where
  "end_it v = (if size_m v = 0 then Null else ptr_add (ArrayPtr_at (items_m v) 0) (size_m v))"

definition cbegin :: "SimpleVector \<Rightarrow> ptr" where
  "cbegin v = begin_it v"

definition cend :: "SimpleVector \<Rightarrow> ptr" where
  "cend v = end_it v"

subsection \<open>Construction\<close>

definition SimpleVector_default :: SimpleVector where
  "SimpleVector_default = \<lparr>items_m = \<lparr>raw_ptr_m = Null\<rparr>, size_m = 0, capacity_m = 0\<rparr>"

text \<open>
  \<open>SimpleVector(size_t size)\<close>. The body constructs one more \<open>Type()\<close> for \<open>std::fill\<close>; when
  that throws, the member \<open>items_\<close> is destroyed again.
\<close>

definition SimpleVector_sized :: "'a option \<Rightarrow> 'a heap \<Rightarrow> nat \<Rightarrow> ('a heap, SimpleVector) result" where
  "SimpleVector_sized ctor h n =
     (case ArrayPtr_new ctor h n of
        Inl e \<Rightarrow> Throw e h
      | Inr (h1, ap) \<Rightarrow>
          (let v = \<lparr>items_m = ap, size_m = n, capacity_m = n\<rparr> in
           case ctor of
             None \<Rightarrow>
               (case ArrayPtr_dtor h1 ap of
                  None \<Rightarrow> Undefined
                | Some h2 \<Rightarrow> Throw CtorThrow h2)
           | Some d \<Rightarrow>
               (case std_fill h1 (begin_it v) (end_it v) d of
                  None \<Rightarrow> Undefined
                | Some h2 \<Rightarrow> Return v h2)))"

text \<open>\<open>SimpleVector(size_t size, const Type& value)\<close>.\<close>

definition SimpleVector_fill ::
  "'a option \<Rightarrow> 'a heap \<Rightarrow> nat \<Rightarrow> 'a \<Rightarrow> ('a heap, SimpleVector) result" where
  "SimpleVector_fill ctor h n x =
     (case ArrayPtr_new ctor h n of
        Inl e \<Rightarrow> Throw e h
      | Inr (h1, ap) \<Rightarrow>
          (let v = \<lparr>items_m = ap, size_m = n, capacity_m = n\<rparr> in
           case std_fill h1 (begin_it v) (end_it v) x of
             None \<Rightarrow> Undefined
           | Some h2 \<Rightarrow> Return v h2))"

text \<open>\<open>SimpleVector(std::initializer_list<Type> init)\<close>: the loop \<open>items_[i++] = val\<close>.\<close>

fun init_loop :: "'a heap \<Rightarrow> ArrayPtr \<Rightarrow> nat \<Rightarrow> 'a list \<Rightarrow> 'a heap option" where
  "init_loop h ap i [] = Some h"
| "init_loop h ap i (x # xs) =
     (case wr h (ArrayPtr_at ap i) x of
        None \<Rightarrow> None
      | Some h' \<Rightarrow> init_loop h' ap (Suc i) xs)"

definition SimpleVector_init ::
  "'a option \<Rightarrow> 'a heap \<Rightarrow> 'a list \<Rightarrow> ('a heap, SimpleVector) result" where
  "SimpleVector_init ctor h init =
     (case ArrayPtr_new ctor h (length init) of
        Inl e \<Rightarrow> Throw e h
      | Inr (h1, ap) \<Rightarrow>
          (case init_loop h1 ap 0 init of
             None \<Rightarrow> Undefined
           | Some h2 \<Rightarrow>
               Return \<lparr>items_m = ap, size_m = length init, capacity_m = length init\<rparr> h2))"

text \<open>
  The copy constructor delegates to \<open>SimpleVector(other.size_)\<close>, then builds \<open>tmp\<close>, copies
  into it and swaps. When \<open>tmp\<close> cannot be allocated, the object built by the delegated
  constructor is destroyed.
\<close>

definition SimpleVector_copy ::
  "'a option \<Rightarrow> 'a heap \<Rightarrow> SimpleVector \<Rightarrow> ('a heap, SimpleVector) result" where
  "SimpleVector_copy ctor h other =
     (case SimpleVector_sized ctor h (size_m other) of
        Return v h1 \<Rightarrow>
          (case ArrayPtr_new ctor h1 (size_m other) of
             Inl e \<Rightarrow>
               (case ArrayPtr_dtor h1 (items_m v) of
                  None \<Rightarrow> Undefined
                | Some h2 \<Rightarrow> Throw e h2)
           | Inr (h2, tmp) \<Rightarrow>
               (case std_copy h2 (begin_it other) (end_it other) (ArrayPtr_at tmp 0) of
                  None \<Rightarrow> Undefined
                | Some h3 \<Rightarrow>
                    (let (tmp', items') = ArrayPtr_swap tmp (items_m v) in
                     case ArrayPtr_dtor h3 tmp' of
                       None \<Rightarrow> Undefined
                     | Some h4 \<Rightarrow> Return (v\<lparr>items_m := items'\<rparr>) h4)))
      | Throw e h1 \<Rightarrow> Throw e h1
      | Abort \<Rightarrow> Abort
      | Undefined \<Rightarrow> Undefined)"

subsection \<open>Assignment\<close>

text \<open>
  Copy assignment, lines 75 to 84 of \<open>simple_vector.h\<close>. \<open>rhs\<close> is only read, and the buffer it
  owns is read before \<open>items_\<close> is swapped, so the same function describes the call with
  \<open>this\<close> and \<open>rhs\<close> the same object (possible when assertions are off).
\<close>

definition copy_assign ::
  "bool \<Rightarrow> 'a option \<Rightarrow> 'a heap \<Rightarrow> SimpleVector \<Rightarrow> SimpleVector
     \<Rightarrow> ('a heap \<times> SimpleVector, unit) result" where
  "copy_assign ndebug ctor h this rhs =
     (if assert_fails ndebug (ArrayPtr_at (items_m rhs) 0 \<noteq> ArrayPtr_at (items_m this) 0)
      then Abort
      else case ArrayPtr_new ctor h (size_m rhs) of
        Inl e \<Rightarrow> Throw e (h, this)
      | Inr (h1, tmp) \<Rightarrow>
          (case std_copy h1 (begin_it rhs) (end_it rhs) (ArrayPtr_at tmp 0) of
             None \<Rightarrow> Undefined
           | Some h2 \<Rightarrow>
               (let (tmp', items') = ArrayPtr_swap tmp (items_m this);
                    this' = this\<lparr>items_m := items', size_m := size_m rhs,
                                capacity_m := capacity_m rhs\<rparr>
                in case ArrayPtr_dtor h2 tmp' of
                     None \<Rightarrow> Undefined
                   | Some h3 \<Rightarrow> Return () (h3, this'))))"

text \<open>
  Move assignment takes its right-hand side by reference and writes to both objects, so
  whether the two are the same object matters. Objects live in a store indexed by their
  identity; \<open>std::exchange(x, v)\<close> reads \<open>x\<close>, stores \<open>v\<close> and returns what it read, and the
  assignment to the left-hand member happens after that.
\<close>

type_synonym obj_store = "nat \<Rightarrow> SimpleVector"

definition ArrayPtr_move_assign :: "obj_store \<Rightarrow> nat \<Rightarrow> nat \<Rightarrow> obj_store" where
  "ArrayPtr_move_assign st this rhs =
     (let old = raw_ptr_m (items_m (st rhs));
          st1 = st(rhs := (st rhs)\<lparr>items_m := (items_m (st rhs))\<lparr>raw_ptr_m := Null\<rparr>\<rparr>)
      in st1(this := (st1 this)\<lparr>items_m := (items_m (st1 this))\<lparr>raw_ptr_m := old\<rparr>\<rparr>))"

definition move_assign :: "obj_store \<Rightarrow> nat \<Rightarrow> nat \<Rightarrow> obj_store" where
  "move_assign st this rhs =
     (let st1 = ArrayPtr_move_assign st this rhs;
          old_size = size_m (st1 rhs);
          st2 = st1(rhs := (st1 rhs)\<lparr>size_m := 0\<rparr>);
          st3 = st2(this := (st2 this)\<lparr>size_m := old_size\<rparr>);
          old_capacity = capacity_m (st3 rhs);
          st4 = st3(rhs := (st3 rhs)\<lparr>capacity_m := 0\<rparr>)
      in st4(this := (st4 this)\<lparr>capacity_m := old_capacity\<rparr>))"

subsection \<open>Element access\<close>

text \<open>\<open>operator[]\<close> and \<open>At\<close> return a reference, here the element's address.\<close>

definition index_op :: "bool \<Rightarrow> SimpleVector \<Rightarrow> nat \<Rightarrow> (unit, ptr) result" where
  "index_op ndebug v i =
     (if assert_fails ndebug (i < size_m v) then Abort
      else Return (ArrayPtr_at (items_m v) i) ())"

definition At :: "SimpleVector \<Rightarrow> nat \<Rightarrow> (unit, ptr) result" where
  "At v i =
     (if i \<ge> size_m v then Throw OutOfRange ()
      else Return (ArrayPtr_at (items_m v) i) ())"

subsection \<open>Modifiers\<close>

definition Clear :: "SimpleVector \<Rightarrow> SimpleVector" where
  "Clear v = v\<lparr>size_m := 0\<rparr>"

text \<open>
  The reallocating tail shared by the growing operations is written out in each of them, as
  in the source: allocate \<open>tmp\<close>, fill it, swap it with \<open>items_\<close>, update the counters; the
  destructor of \<open>tmp\<close> then frees the old block.
\<close>

definition Resize ::
  "'a option \<Rightarrow> 'a heap \<Rightarrow> SimpleVector \<Rightarrow> nat \<Rightarrow> ('a heap \<times> SimpleVector, unit) result" where
  "Resize ctor h v new_size =
     (if new_size \<le> size_m v then Return () (h, v\<lparr>size_m := new_size\<rparr>)
      else if size_m v < new_size \<and> new_size \<le> capacity_m v
      then Return () (h, v\<lparr>size_m := new_size\<rparr>)
      else if new_size > capacity_m v then
        (let new_capacity = max new_size (size_t (2 * capacity_m v)) in
         case ArrayPtr_new ctor h new_capacity of
           Inl e \<Rightarrow> Throw e (h, v)
         | Inr (h1, tmp) \<Rightarrow>
             (case std_copy h1 (begin_it v) (end_it v) (ArrayPtr_at tmp 0) of
                None \<Rightarrow> Undefined
              | Some h2 \<Rightarrow>
                  (let (tmp', items') = ArrayPtr_swap tmp (items_m v);
                       v' = v\<lparr>items_m := items', size_m := new_size, capacity_m := new_capacity\<rparr>
                   in case ArrayPtr_dtor h2 tmp' of
                        None \<Rightarrow> Undefined
                      | Some h3 \<Rightarrow> Return () (h3, v'))))
      else Return () (h, v))"

definition PushBack ::
  "'a option \<Rightarrow> 'a heap \<Rightarrow> SimpleVector \<Rightarrow> 'a \<Rightarrow> ('a heap \<times> SimpleVector, unit) result" where
  "PushBack ctor h v item =
     (if size_m v \<noteq> capacity_m v then
        (case wr h (ArrayPtr_at (items_m v) (size_m v)) item of
           None \<Rightarrow> Undefined
         | Some h1 \<Rightarrow> Return () (h1, v\<lparr>size_m := size_t (size_m v + 1)\<rparr>))
      else
        (let new_capacity = max (size_t (2 * capacity_m v)) 1 in
         case ArrayPtr_new ctor h new_capacity of
           Inl e \<Rightarrow> Throw e (h, v)
         | Inr (h1, tmp) \<Rightarrow>
             (case std_copy h1 (begin_it v) (end_it v) (ArrayPtr_at tmp 0) of
                None \<Rightarrow> Undefined
              | Some h2 \<Rightarrow>
                  (case wr h2 (ArrayPtr_at tmp (size_m v)) item of
                     None \<Rightarrow> Undefined
                   | Some h3 \<Rightarrow>
                       (let (tmp', items') = ArrayPtr_swap tmp (items_m v);
                            v' = v\<lparr>items_m := items', size_m := size_t (size_m v + 1),
                                    capacity_m := new_capacity\<rparr>
                        in case ArrayPtr_dtor h3 tmp' of
                             None \<Rightarrow> Undefined
                           | Some h4 \<Rightarrow> Return () (h4, v'))))))"

text \<open>
  \<open>Insert\<close> returns the iterator \<open>begin() + p\<close> taken after the size has been raised. With
  assertions off, a position that is not in \<open>[begin(), end()]\<close> makes \<open>pos - begin()\<close>
  meaningless; the model gives \<open>Undefined\<close> there.
\<close>

definition Insert ::
  "bool \<Rightarrow> 'a option \<Rightarrow> 'a heap \<Rightarrow> SimpleVector \<Rightarrow> ptr \<Rightarrow> 'a
     \<Rightarrow> ('a heap \<times> SimpleVector, ptr) result" where
  "Insert ndebug ctor h v pos val =
     (if assert_fails ndebug (ptr_le (begin_it v) pos \<and> ptr_le pos (end_it v)) then Abort
      else case ptr_diff pos (begin_it v) of
        None \<Rightarrow> Undefined
      | Some p \<Rightarrow>
          if size_m v \<noteq> capacity_m v then
            (case std_copy_backward h (ptr_add (begin_it v) p) (end_it v) (ptr_add (end_it v) 1) of
               None \<Rightarrow> Undefined
             | Some h1 \<Rightarrow>
                 (case wr h1 (ArrayPtr_at (items_m v) p) val of
                    None \<Rightarrow> Undefined
                  | Some h2 \<Rightarrow>
                      (let v' = v\<lparr>size_m := size_t (size_m v + 1)\<rparr>
                       in Return (ptr_add (begin_it v') p) (h2, v'))))
          else
            (let new_capacity = max (size_t (2 * capacity_m v)) 1 in
             case ArrayPtr_new ctor h new_capacity of
               Inl e \<Rightarrow> Throw e (h, v)
             | Inr (h1, tmp) \<Rightarrow>
                 (case std_copy h1 (begin_it v) (ptr_add (begin_it v) p) (ArrayPtr_at tmp 0) of
                    None \<Rightarrow> Undefined
                  | Some h2 \<Rightarrow>
                      (case wr h2 (ArrayPtr_at tmp p) val of
                         None \<Rightarrow> Undefined
                       | Some h3 \<Rightarrow>
                           (case std_copy_backward h3 (ptr_add (begin_it v) p) (end_it v)
                                   (ptr_add (ArrayPtr_at tmp (size_m v)) 1) of
                              None \<Rightarrow> Undefined
                            | Some h4 \<Rightarrow>
                                (let (tmp', items') = ArrayPtr_swap tmp (items_m v);
                                     v' = v\<lparr>items_m := items', capacity_m := new_capacity,
                                             size_m := size_t (size_m v + 1)\<rparr>
                                 in case ArrayPtr_dtor h4 tmp' of
                                      None \<Rightarrow> Undefined
                                    | Some h5 \<Rightarrow> Return (ptr_add (begin_it v') p) (h5, v')))))))"

definition PopBack :: "bool \<Rightarrow> SimpleVector \<Rightarrow> (SimpleVector, unit) result" where
  "PopBack ndebug v =
     (if assert_fails ndebug (size_m v \<noteq> 0) then Abort
      else Return () (v\<lparr>size_m := size_t_dec (size_m v)\<rparr>))"

definition Erase ::
  "bool \<Rightarrow> 'a heap \<Rightarrow> SimpleVector \<Rightarrow> ptr \<Rightarrow> ('a heap \<times> SimpleVector, ptr) result" where
  "Erase ndebug h v pos =
     (if assert_fails ndebug (ptr_le (begin_it v) pos \<and> ptr_less pos (end_it v)) then Abort
      else case ptr_diff pos (begin_it v) of
        None \<Rightarrow> Undefined
      | Some p \<Rightarrow>
          (case std_copy h (ptr_add (ptr_add (begin_it v) p) 1) (end_it v) (ptr_add (begin_it v) p) of
             None \<Rightarrow> Undefined
           | Some h1 \<Rightarrow>
               (let v' = v\<lparr>size_m := size_t_dec (size_m v)\<rparr>
                in Return (ptr_add (begin_it v') p) (h1, v'))))"

definition swap_vec :: "SimpleVector \<Rightarrow> SimpleVector \<Rightarrow> SimpleVector \<times> SimpleVector" where
  "swap_vec this other =
     (let (i1, i2) = ArrayPtr_swap (items_m this) (items_m other)
      in (this\<lparr>items_m := i1, size_m := size_m other, capacity_m := capacity_m other\<rparr>,
          other\<lparr>items_m := i2, size_m := size_m this, capacity_m := capacity_m this\<rparr>))"

definition Reserve ::
  "'a option \<Rightarrow> 'a heap \<Rightarrow> SimpleVector \<Rightarrow> nat \<Rightarrow> ('a heap \<times> SimpleVector, unit) result" where
  "Reserve ctor h v new_capacity =
     (if new_capacity \<le> capacity_m v then Return () (h, v)
      else case ArrayPtr_new ctor h new_capacity of
        Inl e \<Rightarrow> Throw e (h, v)
      | Inr (h1, tmp) \<Rightarrow>
          (case std_copy h1 (begin_it v) (end_it v) (ArrayPtr_at tmp 0) of
             None \<Rightarrow> Undefined
           | Some h2 \<Rightarrow>
               (let (tmp', items') = ArrayPtr_swap tmp (items_m v);
                    v' = v\<lparr>items_m := items', capacity_m := new_capacity\<rparr>
                in case ArrayPtr_dtor h2 tmp' of
                     None \<Rightarrow> Undefined
                   | Some h3 \<Rightarrow> Return () (h3, v'))))"

text \<open>\<open>SimpleVector(const ReserveProxyObj& obj)\<close>, with \<open>obj.GetCapacity()\<close> passed directly.\<close>

definition SimpleVector_reserved ::
  "'a option \<Rightarrow> 'a heap \<Rightarrow> nat \<Rightarrow> ('a heap \<times> SimpleVector, unit) result" where
  "SimpleVector_reserved ctor h n = Reserve ctor h SimpleVector_default n"

subsection \<open>Comparison operators\<close>

text \<open>The result is \<open>None\<close> when the comparison runs into undefined behaviour.\<close>

definition op_eq :: "'a heap \<Rightarrow> SimpleVector \<Rightarrow> SimpleVector \<Rightarrow> bool option" where
  "op_eq h lhs rhs =
     (if GetSize lhs = GetSize rhs
      then std_equal h (begin_it lhs) (end_it lhs) (begin_it rhs)
      else Some False)"

definition op_neq :: "'a heap \<Rightarrow> SimpleVector \<Rightarrow> SimpleVector \<Rightarrow> bool option" where
  "op_neq h lhs rhs = map_option Not (op_eq h lhs rhs)"

definition op_lt :: "('a::ord) heap \<Rightarrow> SimpleVector \<Rightarrow> SimpleVector \<Rightarrow> bool option" where
  "op_lt h lhs rhs =
     std_lexicographical_compare h (begin_it lhs) (end_it lhs) (begin_it rhs) (end_it rhs)"

definition op_le :: "('a::ord) heap \<Rightarrow> SimpleVector \<Rightarrow> SimpleVector \<Rightarrow> bool option" where
  "op_le h lhs rhs = map_option Not (op_lt h rhs lhs)"

definition op_gt :: "('a::ord) heap \<Rightarrow> SimpleVector \<Rightarrow> SimpleVector \<Rightarrow> bool option" where
  "op_gt h lhs rhs = op_lt h rhs lhs"

definition op_ge :: "('a::ord) heap \<Rightarrow> SimpleVector \<Rightarrow> SimpleVector \<Rightarrow> bool option" where
  "op_ge h lhs rhs = map_option Not (op_lt h lhs rhs)"

section \<open>Well-formed sequences\<close>

text \<open>
  \<open>buffer_slots\<close> is the number of elements of the array that \<open>items_\<close> points to: what the
  allocation gave, whatever \<open>capacity_\<close> says.
\<close>

definition buffer :: "'a heap \<Rightarrow> SimpleVector \<Rightarrow> 'a list option" where
  "buffer h v =
     (case raw_ptr_m (items_m v) of
        Null \<Rightarrow> Some []
      | Ptr a off \<Rightarrow> if off = 0 then cells h a else None)"

definition buffer_slots :: "'a heap \<Rightarrow> SimpleVector \<Rightarrow> nat" where
  "buffer_slots h v = (case buffer h v of None \<Rightarrow> 0 | Some xs \<Rightarrow> length xs)"

text \<open>The live elements, positions \<open>[0, size)\<close> of the buffer.\<close>

definition elems :: "'a heap \<Rightarrow> SimpleVector \<Rightarrow> 'a list" where
  "elems h v = (case buffer h v of None \<Rightarrow> [] | Some xs \<Rightarrow> take (size_m v) xs)"

text \<open>
  A valid sequence: \<open>items_\<close> is null or the start of a live block allocated before the
  heap's next address, \<open>capacity_\<close> is that block's length, and \<open>size_\<close> is at most
  \<open>capacity_\<close>.
\<close>

definition valid :: "'a heap \<Rightarrow> SimpleVector \<Rightarrow> bool" where
  "valid h v =
     (size_m v \<le> capacity_m v \<and>
      (case raw_ptr_m (items_m v) of
         Null \<Rightarrow> capacity_m v = 0
       | Ptr a off \<Rightarrow>
           off = 0 \<and> a < next_addr h \<and>
           (case cells h a of
              None \<Rightarrow> False
            | Some xs \<Rightarrow> length xs = capacity_m v \<and> length xs \<le> max_array_len)))"

section \<open>Observations used in the statements\<close>

text \<open>The value read through the reference that \<open>At\<close> returns.\<close>

definition At_value :: "'a heap \<Rightarrow> SimpleVector \<Rightarrow> nat \<Rightarrow> 'a option" where
  "At_value h v i = (case At v i of Return p u \<Rightarrow> rd h p | _ \<Rightarrow> None)"

text \<open>
  Lexicographic order on lists from the element order alone: the first position where one
  element is less than the other decides, and a proper prefix is less.
\<close>

fun lex_less :: "('a::ord) list \<Rightarrow> 'a list \<Rightarrow> bool" where
  "lex_less [] ys = (ys \<noteq> [])"
| "lex_less (x # xs) [] = False"
| "lex_less (x # xs) (y # ys) = (x < y \<or> (\<not> y < x \<and> lex_less xs ys))"

text \<open>
  Example states: an empty heap with room for 100 elements, and the state after
  \<open>SimpleVector<int>{1, 2, 3}\<close> has been built on a heap with room for 103.
\<close>

definition empty_heap :: "int heap" where
  "empty_heap = \<lparr>cells = (\<lambda>_. None), next_addr = 0, avail = 100\<rparr>"

definition ex_heap :: "int heap" where
  "ex_heap = \<lparr>cells = (\<lambda>_. None)(0 \<mapsto> [1, 2, 3]), next_addr = 1, avail = 100\<rparr>"

definition ex_vec :: SimpleVector where
  "ex_vec = \<lparr>items_m = \<lparr>raw_ptr_m = Ptr 0 0\<rparr>, size_m = 3, capacity_m = 3\<rparr>"

text \<open>A heap with two sequences, \<open>{1, 2, 3}\<close> and \<open>{1, 2, 4}\<close> (the latter with capacity 4).\<close>

definition ex_heap2 :: "int heap" where
  "ex_heap2 = \<lparr>cells = (\<lambda>_. None)(0 \<mapsto> [1, 2, 3], 1 \<mapsto> [1, 2, 4, 0]), next_addr = 2, avail = 100\<rparr>"

definition ex_vec2 :: SimpleVector where
  "ex_vec2 = \<lparr>items_m = \<lparr>raw_ptr_m = Ptr 1 0\<rparr>, size_m = 3, capacity_m = 4\<rparr>"

section \<open>The loops\<close>

lemma copy_loop_cells:
  assumes "cells h a = Some xs" "cells h b = Some ys"
    and "i + n \<le> length xs" "k + n \<le> length ys" "a \<noteq> b \<or> k \<le> i"
  shows "copy_loop n h (Ptr a i) (Ptr b k) =
           Some (h\<lparr>cells := (cells h)(b \<mapsto> take k ys @ take n (drop i xs) @ drop (k + n) ys)\<rparr>)"
  using assms
proof (induction n arbitrary: h i k xs ys)
  case 0
  then show ?case by (simp add: fun_upd_idem)
next
  case (Suc n)
  let ?h1 = "h\<lparr>cells := (cells h)(b \<mapsto> ys[k := xs ! i])\<rparr>"
  have r: "rd h (Ptr a i) = Some (xs ! i)" using Suc.prems by (simp add: rd_def)
  have w: "wr h (Ptr b k) (xs ! i) = Some ?h1" using Suc.prems by (simp add: wr_def)
  let ?xs1 = "if a = b then ys[k := xs ! i] else xs"
  have c1: "cells ?h1 a = Some ?xs1" using Suc.prems by auto
  have c2: "cells ?h1 b = Some (ys[k := xs ! i])" by simp
  have xy: "a = b \<Longrightarrow> xs = ys" using Suc.prems by simp
  have ih: "copy_loop n ?h1 (Ptr a (Suc i)) (Ptr b (Suc k)) =
      Some (?h1\<lparr>cells := (cells ?h1)(b \<mapsto> take (Suc k) (ys[k := xs ! i]) @ take n (drop (Suc i) ?xs1) @ drop (Suc k + n) (ys[k := xs ! i]))\<rparr>)"
    apply (rule Suc.IH[OF c1 c2]) using Suc.prems by (auto)
  have d: "drop (Suc i) ?xs1 = drop (Suc i) xs" using Suc.prems xy by auto
  have l: "take (Suc k) (ys[k := xs ! i]) @ take n (drop (Suc i) xs) @ drop (Suc k + n) (ys[k := xs ! i])
      = take k ys @ take (Suc n) (drop i xs) @ drop (k + Suc n) ys"
  proof -
    have "k < length ys" "i < length xs" using Suc.prems by auto
    then have "take (Suc k) (ys[k := xs ! i]) = take k ys @ [xs ! i]"
      by (simp add: take_Suc_conv_app_nth)
    moreover have "take (Suc n) (drop i xs) = xs ! i # take n (drop (Suc i) xs)"
      using \<open>i < length xs\<close> by (simp add: Cons_nth_drop_Suc[symmetric])
    ultimately show ?thesis by simp
  qed
  have ih2: "copy_loop n ?h1 (Ptr a (Suc i)) (Ptr b (Suc k)) =
      Some (?h1\<lparr>cells := (cells ?h1)(b \<mapsto> take k ys @ take (Suc n) (drop i xs) @ drop (k + Suc n) ys)\<rparr>)"
    using ih by (simp only: d l)
  have "copy_loop (Suc n) h (Ptr a i) (Ptr b k) = copy_loop n ?h1 (Ptr a (Suc i)) (Ptr b (Suc k))"
    by (simp add: r w)
  also note ih2
  also have "?h1\<lparr>cells := (cells ?h1)(b \<mapsto> take k ys @ take (Suc n) (drop i xs) @ drop (k + Suc n) ys)\<rparr>
     = h\<lparr>cells := (cells h)(b \<mapsto> take k ys @ take (Suc n) (drop i xs) @ drop (k + Suc n) ys)\<rparr>"
    by simp
  finally show ?case .
qed


lemma copy_backward_loop_cells:
  assumes "cells h a = Some xs" "cells h b = Some ys"
    and "n \<le> j" "j \<le> length xs" "n \<le> k" "k \<le> length ys" "a \<noteq> b \<or> j \<le> k"
  shows "copy_backward_loop n h (Ptr a j) (Ptr b k) =
           Some (h\<lparr>cells := (cells h)(b \<mapsto> take (k - n) ys @ take n (drop (j - n) xs) @ drop k ys)\<rparr>)"
  using assms
proof (induction n arbitrary: h j k xs ys)
  case 0
  then show ?case by (simp add: fun_upd_idem)
next
  case (Suc n)
  from Suc.prems obtain j' k' where jk: "j = Suc j'" "k = Suc k'"
    by (cases j; cases k) auto
  let ?x = "xs ! j'"
  let ?h1 = "h\<lparr>cells := (cells h)(b \<mapsto> ys[k' := ?x])\<rparr>"
  have r: "rd h (Ptr a j') = Some ?x" using Suc.prems jk by (simp add: rd_def)
  have w: "wr h (Ptr b k') ?x = Some ?h1" using Suc.prems jk by (simp add: wr_def)
  let ?xs1 = "if a = b then ys[k' := ?x] else xs"
  have c1: "cells ?h1 a = Some ?xs1" using Suc.prems by auto
  have c2: "cells ?h1 b = Some (ys[k' := ?x])" by simp
  have xy: "a = b \<Longrightarrow> xs = ys" using Suc.prems by simp
  have ih: "copy_backward_loop n ?h1 (Ptr a j') (Ptr b k') =
      Some (?h1\<lparr>cells := (cells ?h1)(b \<mapsto> take (k' - n) (ys[k' := ?x]) @ take n (drop (j' - n) ?xs1) @ drop k' (ys[k' := ?x]))\<rparr>)"
    apply (rule Suc.IH[OF c1 c2]) using Suc.prems jk by auto
  have d: "take n (drop (j' - n) ?xs1) = take n (drop (j' - n) xs)"
  proof (cases "a = b")
    case True
    then have "j' \<le> k'" using Suc.prems jk by simp
    have "take n (drop (j' - n) (ys[k' := ?x])) = take n ((drop (j' - n) ys)[k' - (j' - n) := ?x])"
      using \<open>j' \<le> k'\<close> by (simp add: drop_update_swap)
    also have "\<dots> = take n (drop (j' - n) ys)"
      using \<open>j' \<le> k'\<close> Suc.prems jk by simp
    finally show ?thesis using True xy by simp
  next
    case False
    then show ?thesis by simp
  qed
  have l: "take (k' - n) (ys[k' := ?x]) @ take n (drop (j' - n) xs) @ drop k' (ys[k' := ?x])
      = take (k - Suc n) ys @ take (Suc n) (drop (j - Suc n) xs) @ drop k ys"
  proof -
    have kl: "k' < length ys" and jl: "j' < length xs" and nj: "n \<le> j'" using Suc.prems jk by auto
    have "drop k' (ys[k' := ?x]) = ?x # drop (Suc k') ys"
      using kl by (simp add: Cons_nth_drop_Suc[symmetric])
    moreover have "take (Suc n) (drop (j' - n) xs) = take n (drop (j' - n) xs) @ [?x]"
      using jl nj by (simp add: take_Suc_conv_app_nth)
    ultimately show ?thesis using jk by simp
  qed
  have ih2: "copy_backward_loop n ?h1 (Ptr a j') (Ptr b k') =
      Some (?h1\<lparr>cells := (cells ?h1)(b \<mapsto> take (k - Suc n) ys @ take (Suc n) (drop (j - Suc n) xs) @ drop k ys)\<rparr>)"
    using ih by (simp only: d l)
  have "copy_backward_loop (Suc n) h (Ptr a j) (Ptr b k) = copy_backward_loop n ?h1 (Ptr a j') (Ptr b k')"
    by (simp add: r w jk)
  also note ih2
  also have "?h1\<lparr>cells := (cells ?h1)(b \<mapsto> take (k - Suc n) ys @ take (Suc n) (drop (j - Suc n) xs) @ drop k ys)\<rparr>
     = h\<lparr>cells := (cells h)(b \<mapsto> take (k - Suc n) ys @ take (Suc n) (drop (j - Suc n) xs) @ drop k ys)\<rparr>"
    by simp
  finally show ?case .
qed

lemma fill_loop_cells:
  assumes "cells h a = Some xs" "i + n \<le> length xs"
  shows "fill_loop n h (Ptr a i) x =
           Some (h\<lparr>cells := (cells h)(a \<mapsto> take i xs @ replicate n x @ drop (i + n) xs)\<rparr>)"
  using assms
proof (induction n arbitrary: h i xs)
  case 0
  then show ?case by (simp add: fun_upd_idem)
next
  case (Suc n)
  let ?h1 = "h\<lparr>cells := (cells h)(a \<mapsto> xs[i := x])\<rparr>"
  have w: "wr h (Ptr a i) x = Some ?h1" using Suc.prems by (simp add: wr_def)
  have c: "cells ?h1 a = Some (xs[i := x])" by simp
  have ih: "fill_loop n ?h1 (Ptr a (Suc i)) x =
     Some (?h1\<lparr>cells := (cells ?h1)(a \<mapsto> take (Suc i) (xs[i := x]) @ replicate n x @ drop (Suc i + n) (xs[i := x]))\<rparr>)"
    apply (rule Suc.IH[OF c]) using Suc.prems by simp
  have l: "take (Suc i) (xs[i := x]) @ replicate n x @ drop (Suc i + n) (xs[i := x])
      = take i xs @ replicate (Suc n) x @ drop (i + Suc n) xs"
  proof -
    have "i < length xs" using Suc.prems by simp
    then have "take (Suc i) (xs[i := x]) = take i xs @ [x]"
      by (simp add: take_Suc_conv_app_nth)
    then show ?thesis by simp
  qed
  have ih2: "fill_loop n ?h1 (Ptr a (Suc i)) x =
     Some (?h1\<lparr>cells := (cells ?h1)(a \<mapsto> take i xs @ replicate (Suc n) x @ drop (i + Suc n) xs)\<rparr>)"
    using ih by (simp only: l)
  have "fill_loop (Suc n) h (Ptr a i) x = fill_loop n ?h1 (Ptr a (Suc i)) x"
    by (simp add: w)
  also note ih2
  also have "?h1\<lparr>cells := (cells ?h1)(a \<mapsto> take i xs @ replicate (Suc n) x @ drop (i + Suc n) xs)\<rparr>
    = h\<lparr>cells := (cells h)(a \<mapsto> take i xs @ replicate (Suc n) x @ drop (i + Suc n) xs)\<rparr>"
    by simp
  finally show ?case .
qed

lemma init_loop_cells:
  assumes "cells h a = Some xs" "i + length ys \<le> length xs"
  shows "init_loop h \<lparr>raw_ptr_m = Ptr a 0\<rparr> i ys =
           Some (h\<lparr>cells := (cells h)(a \<mapsto> take i xs @ ys @ drop (i + length ys) xs)\<rparr>)"
  using assms
proof (induction ys arbitrary: h i xs)
  case Nil
  then show ?case by (simp add: fun_upd_idem)
next
  case (Cons y ys)
  let ?h1 = "h\<lparr>cells := (cells h)(a \<mapsto> xs[i := y])\<rparr>"
  have w: "wr h (ArrayPtr_at \<lparr>raw_ptr_m = Ptr a 0\<rparr> i) y = Some ?h1"
    using Cons.prems by (simp add: wr_def ArrayPtr_at_def)
  have c: "cells ?h1 a = Some (xs[i := y])" by simp
  have ih: "init_loop ?h1 \<lparr>raw_ptr_m = Ptr a 0\<rparr> (Suc i) ys =
     Some (?h1\<lparr>cells := (cells ?h1)(a \<mapsto> take (Suc i) (xs[i := y]) @ ys @ drop (Suc i + length ys) (xs[i := y]))\<rparr>)"
    apply (rule Cons.IH[OF c]) using Cons.prems by simp
  have l: "take (Suc i) (xs[i := y]) @ ys @ drop (Suc i + length ys) (xs[i := y])
      = take i xs @ (y # ys) @ drop (i + length (y # ys)) xs"
  proof -
    have "i < length xs" using Cons.prems by simp
    then have "take (Suc i) (xs[i := y]) = take i xs @ [y]"
      by (simp add: take_Suc_conv_app_nth)
    then show ?thesis by simp
  qed
  have ih2: "init_loop ?h1 \<lparr>raw_ptr_m = Ptr a 0\<rparr> (Suc i) ys =
     Some (?h1\<lparr>cells := (cells ?h1)(a \<mapsto> take i xs @ (y # ys) @ drop (i + length (y # ys)) xs)\<rparr>)"
    using ih by (simp only: l)
  have "init_loop h \<lparr>raw_ptr_m = Ptr a 0\<rparr> i (y # ys) = init_loop ?h1 \<lparr>raw_ptr_m = Ptr a 0\<rparr> (Suc i) ys"
    by (simp add: w)
  also note ih2
  also have "?h1\<lparr>cells := (cells ?h1)(a \<mapsto> take i xs @ (y # ys) @ drop (i + length (y # ys)) xs)\<rparr>
    = h\<lparr>cells := (cells h)(a \<mapsto> take i xs @ (y # ys) @ drop (i + length (y # ys)) xs)\<rparr>"
    by simp
  finally show ?case .
qed

lemma equal_loop_cells:
  assumes "cells h a = Some xs" "cells h b = Some ys" "i + n \<le> length xs" "k + n \<le> length ys"
  shows "equal_loop n h (Ptr a i) (Ptr b k) = Some (take n (drop i xs) = take n (drop k ys))"
  using assms
proof (induction n arbitrary: i k)
  case 0
  then show ?case by simp
next
  case (Suc n)
  have il: "i < length xs" and kl: "k < length ys" using Suc.prems by auto
  have r1: "rd h (Ptr a i) = Some (xs ! i)" using Suc.prems il by (simp add: rd_def)
  have r2: "rd h (Ptr b k) = Some (ys ! k)" using Suc.prems kl by (simp add: rd_def)
  have t1: "take (Suc n) (drop i xs) = xs ! i # take n (drop (Suc i) xs)"
    using il by (simp add: Cons_nth_drop_Suc[symmetric])
  have t2: "take (Suc n) (drop k ys) = ys ! k # take n (drop (Suc k) ys)"
    using kl by (simp add: Cons_nth_drop_Suc[symmetric])
  have ih: "equal_loop n h (Ptr a (Suc i)) (Ptr b (Suc k)) =
      Some (take n (drop (Suc i) xs) = take n (drop (Suc k) ys))"
    apply (rule Suc.IH) using Suc.prems by auto
  show ?case by (simp add: r1 r2 t1 t2 ih)
qed

lemma lex_less_Nil2: "\<not> lex_less xs []"
  by (cases xs) simp_all

lemma lex_less_lexordp: "lex_less xs ys = ord_class.lexordp xs ys"
  by (induction xs ys rule: lex_less.induct) auto

lemma lex_loop_cells:
  assumes "cells h a = Some xs" "cells h b = Some ys" "i + n1 \<le> length xs" "k + n2 \<le> length ys"
  shows "lex_loop n1 n2 h (Ptr a i) (Ptr b k) =
           Some (lex_less (take n1 (drop i xs)) (take n2 (drop k ys)))"
  using assms
proof (induction n1 n2 h "Ptr a i" "Ptr b k" arbitrary: i k rule: lex_loop.induct)
  case (1 n2 h)
  then show ?case by (cases n2) (auto simp: Cons_nth_drop_Suc[symmetric])
next
  case (2 n1 h)
  then show ?case by (simp add: lex_less_Nil2)
next
  case (3 n1 n2 h)
  have il: "i < length xs" and kl: "k < length ys" using "3.prems" by auto
  have r1: "rd h (Ptr a i) = Some (xs ! i)" using "3.prems" il by (simp add: rd_def)
  have r2: "rd h (Ptr b k) = Some (ys ! k)" using "3.prems" kl by (simp add: rd_def)
  have t1: "take (Suc n1) (drop i xs) = xs ! i # take n1 (drop (Suc i) xs)"
    using il by (simp add: Cons_nth_drop_Suc[symmetric])
  have t2: "take (Suc n2) (drop k ys) = ys ! k # take n2 (drop (Suc k) ys)"
    using kl by (simp add: Cons_nth_drop_Suc[symmetric])
  show ?case
  proof (cases "xs ! i < ys ! k \<or> ys ! k < xs ! i")
    case True
    then show ?thesis by (auto simp add: r1 r2 t1 t2)
  next
    case False
    have "lex_loop n1 n2 h (Ptr a (Suc i)) (Ptr b (Suc k)) =
         Some (lex_less (take n1 (drop (Suc i) xs)) (take n2 (drop (Suc k) ys)))"
      apply (rule "3.hyps"[OF r1 r2]) using False "3.prems" by auto
    then show ?thesis using False by (simp add: r1 r2 t1 t2)
  qed
qed

section \<open>Valid sequences and reallocation\<close>

lemma size_t_id: "n < SIZE_MOD \<Longrightarrow> size_t n = n"
  by (simp add: size_t_def)

lemma max_array_len_double: "n \<le> max_array_len \<Longrightarrow> 2 * n < SIZE_MOD"
  by (simp add: max_array_len_def SIZE_MOD_def)

lemma max_array_len_Suc: "n \<le> max_array_len \<Longrightarrow> Suc n < SIZE_MOD"
  by (simp add: max_array_len_def SIZE_MOD_def)

lemma size_t_dec_Suc: "Suc n < SIZE_MOD \<Longrightarrow> size_t_dec (Suc n) = n"
  by (simp add: size_t_dec_def SIZE_MOD_def)

lemma ArrayPtr_swap_eq: "ArrayPtr_swap a b = (b, a)"
  by (cases a; cases b) (simp add: ArrayPtr_swap_def)

lemma valid_cases [consumes 1, case_names null block]:
  assumes "valid h v"
  obtains "raw_ptr_m (items_m v) = Null" "capacity_m v = 0" "size_m v = 0"
  | a xs where "raw_ptr_m (items_m v) = Ptr a 0" "a < next_addr h" "cells h a = Some xs"
      "length xs = capacity_m v" "size_m v \<le> capacity_m v" "capacity_m v \<le> max_array_len"
  using assms unfolding valid_def
  by (auto split: ptr.splits option.splits)

lemma valid_size_le: "valid h v \<Longrightarrow> size_m v \<le> capacity_m v"
  by (simp add: valid_def)

lemma valid_capacity_le: "valid h v \<Longrightarrow> capacity_m v \<le> max_array_len"
  by (erule valid_cases) auto

lemma elems_block:
  "raw_ptr_m (items_m v) = Ptr a 0 \<Longrightarrow> cells h a = Some xs \<Longrightarrow> elems h v = take (size_m v) xs"
  by (simp add: elems_def buffer_def)

lemma elems_null: "raw_ptr_m (items_m v) = Null \<Longrightarrow> elems h v = []"
  by (simp add: elems_def buffer_def)

lemma length_elems: "valid h v \<Longrightarrow> length (elems h v) = size_m v"
  by (erule valid_cases) (simp_all add: elems_null elems_block)

lemma At_value_valid:
  assumes "valid h v" "i < size_m v"
  shows "At_value h v i = Some (elems h v ! i)"
  using assms(1)
proof (cases rule: valid_cases)
  case null
  then show ?thesis using assms(2) by simp
next
  case (block a xs)
  then show ?thesis using assms(2)
    by (simp add: At_value_def At_def ArrayPtr_at_def rd_def elems_block)
qed

lemma ArrayPtr_new_Inr:
  assumes "ArrayPtr_new ctor h n = Inr (h1, tmp)" "0 < n"
  obtains d where "ctor = Some d" "n \<le> max_array_len" "n \<le> avail h"
    "tmp = \<lparr>raw_ptr_m = Ptr (next_addr h) 0\<rparr>"
    "h1 = h\<lparr>cells := (cells h)(next_addr h \<mapsto> replicate n d),
           next_addr := Suc (next_addr h), avail := avail h - n\<rparr>"
  using assms unfolding ArrayPtr_new_def new_array_def
  by (auto split: if_splits option.splits)

text \<open>Copying the live range of a valid vector into a block that is not its own.\<close>

lemma std_copy_live:
  assumes "valid h v" and "cells h1 b = Some ys" and "size_m v \<le> length ys"
    and "\<And>a. a < next_addr h \<Longrightarrow> cells h1 a = cells h a" and "next_addr h \<le> b"
  shows "std_copy h1 (begin_it v) (end_it v) (Ptr b 0) =
           Some (h1\<lparr>cells := (cells h1)(b \<mapsto> elems h v @ drop (size_m v) ys)\<rparr>)"
  using assms(1)
proof (cases rule: valid_cases)
  case null
  then show ?thesis using assms(2)
    by (simp add: std_copy_def begin_it_def end_it_def elems_null fun_upd_idem)
next
  case (block a xs)
  show ?thesis
  proof (cases "size_m v = 0")
    case True
    then show ?thesis using assms(2)
      by (simp add: std_copy_def begin_it_def end_it_def elems_block[OF block(1,3)] fun_upd_idem)
  next
    case False
    have c: "cells h1 a = Some xs" using assms(4) block by simp
    have ab: "a \<noteq> b" using block assms(5) by simp
    have "copy_loop (size_m v) h1 (Ptr a 0) (Ptr b 0) =
        Some (h1\<lparr>cells := (cells h1)(b \<mapsto> take 0 ys @ take (size_m v) (drop 0 xs) @ drop (0 + size_m v) ys)\<rparr>)"
      apply (rule copy_loop_cells[OF c assms(2)]) using block assms(3) ab by auto
    then show ?thesis using False block
      by (simp add: std_copy_def begin_it_def end_it_def ArrayPtr_at_def elems_block[OF block(1,3)])
  qed
qed

text \<open>Destroying the buffer that a valid vector owned.\<close>

lemma ArrayPtr_dtor_old:
  assumes "valid h v" and "\<And>a. a < next_addr h \<Longrightarrow> cells h1 a = cells h a"
  shows "\<exists>h2. ArrayPtr_dtor h1 (items_m v) = Some h2 \<and>
           (\<forall>b. next_addr h \<le> b \<longrightarrow> cells h2 b = cells h1 b) \<and> next_addr h2 = next_addr h1"
  using assms(1)
proof (cases rule: valid_cases)
  case null
  then show ?thesis by (simp add: ArrayPtr_dtor_def delete_array_def)
next
  case (block a xs)
  have c: "cells h1 a = Some xs" using assms(2) block by simp
  show ?thesis
    using block c by (simp add: ArrayPtr_dtor_def delete_array_def)
qed

lemma PushBack_core:
  assumes v: "valid h v"
  shows "(\<exists>h' v'. PushBack ctor h v x = Return () (h', v') \<and> valid h' v' \<and>
            elems h' v' = elems h v @ [x] \<and> size_m v' = size_m v + 1 \<and>
            capacity_m v' = (if size_m v = capacity_m v then max (2 * capacity_m v) 1 else capacity_m v))
         \<or> (\<exists>e. PushBack ctor h v x = Throw e (h, v) \<and> size_m v = capacity_m v \<and>
              ArrayPtr_new ctor h (max (2 * capacity_m v) 1) = Inl e)"
proof (cases "size_m v = capacity_m v")
  case False
  from v False show ?thesis
  proof (cases rule: valid_cases)
    case null
    then show ?thesis using False by simp
  next
    case (block a xs)
    let ?h1 = "h\<lparr>cells := (cells h)(a \<mapsto> xs[size_m v := x])\<rparr>"
    let ?v1 = "v\<lparr>size_m := size_m v + 1\<rparr>"
    have lt: "size_m v < length xs" using block False by simp
    have st: "size_t (size_m v + 1) = size_m v + 1"
      using lt block max_array_len_Suc[of "size_m v"] by (intro size_t_id) simp
    have w: "wr h (ArrayPtr_at (items_m v) (size_m v)) x = Some ?h1"
      using block lt by (simp add: wr_def ArrayPtr_at_def)
    have p: "PushBack ctor h v x = Return () (?h1, ?v1)"
      using False w st by (simp add: PushBack_def)
    have "valid ?h1 ?v1" using block lt by (simp add: valid_def)
    moreover have "elems ?h1 ?v1 = elems h v @ [x]"
      using block lt by (simp add: elems_def buffer_def take_Suc_conv_app_nth)
    ultimately show ?thesis using p False by simp
  qed
next
  case True
  let ?n = "max (2 * capacity_m v) 1"
  have nc: "max (size_t (2 * capacity_m v)) 1 = ?n"
    using max_array_len_double[OF valid_capacity_le[OF v]] by (simp add: size_t_id)
  show ?thesis
  proof (cases "ArrayPtr_new ctor h ?n")
    case (Inl e)
    then show ?thesis using True nc by (simp add: PushBack_def)
  next
    case (Inr r)
    obtain h1 tmp where r: "r = (h1, tmp)" by (cases r)
    from Inr r have "ArrayPtr_new ctor h ?n = Inr (h1, tmp)" by simp
    then obtain d where d: "ctor = Some d" "?n \<le> max_array_len"
        "tmp = \<lparr>raw_ptr_m = Ptr (next_addr h) 0\<rparr>"
        "h1 = h\<lparr>cells := (cells h)(next_addr h \<mapsto> replicate ?n d),
           next_addr := Suc (next_addr h), avail := avail h - ?n\<rparr>"
      by (rule ArrayPtr_new_Inr) auto
    let ?b = "next_addr h"
    let ?ys = "replicate ?n d"
    let ?zs = "elems h v @ drop (size_m v) ?ys"
    let ?h2 = "h1\<lparr>cells := (cells h1)(?b \<mapsto> ?zs)\<rparr>"
    have old: "\<And>a. a < next_addr h \<Longrightarrow> cells h1 a = cells h a" using d by simp
    have c1: "cells h1 ?b = Some ?ys" using d by simp
    have sz: "size_m v < ?n" using True by simp
    have cp: "std_copy h1 (begin_it v) (end_it v) (ArrayPtr_at tmp 0) = Some ?h2"
      using std_copy_live[OF v c1 _ old] sz d by (simp add: ArrayPtr_at_def)
    have le: "length (elems h v) = size_m v" by (rule length_elems[OF v])
    have lz: "length ?zs = ?n" using le sz by simp
    define h3 where "h3 = ?h2\<lparr>cells := (cells ?h2)(?b \<mapsto> ?zs[size_m v := x])\<rparr>"
    have w: "wr ?h2 (ArrayPtr_at tmp (size_m v)) x = Some h3"
      using d lz sz by (simp add: h3_def wr_def ArrayPtr_at_def del: length_append length_drop)
    have old3: "\<And>a. a < next_addr h \<Longrightarrow> cells h3 a = cells h a" using d by (simp add: h3_def)
    have c3: "cells h3 ?b = Some (?zs[size_m v := x])" by (simp add: h3_def)
    have n3: "next_addr h3 = Suc ?b" using d by (simp add: h3_def)
    obtain h4 where h4: "ArrayPtr_dtor h3 (items_m v) = Some h4"
      "\<forall>b. next_addr h \<le> b \<longrightarrow> cells h4 b = cells h3 b" "next_addr h4 = next_addr h3"
      using ArrayPtr_dtor_old[OF v old3] by blast
    let ?v1 = "v\<lparr>items_m := tmp, size_m := size_m v + 1, capacity_m := ?n\<rparr>"
    have st: "size_t (size_m v + 1) = size_m v + 1"
      using valid_capacity_le[OF v] valid_size_le[OF v] max_array_len_Suc[of "size_m v"]
      by (intro size_t_id) simp
    have p: "PushBack ctor h v x = Return () (h4, ?v1)"
      using True Inr r cp w h4(1) st nc
      by (simp add: PushBack_def ArrayPtr_swap_eq del: length_append length_drop)
    have c4: "cells h4 ?b = Some (?zs[size_m v := x])" using h4(2) c3 by simp
    have "valid h4 ?v1"
      using c4 h4(3) n3 d lz sz by (simp add: valid_def del: length_append length_drop)
    moreover have "elems h4 ?v1 = elems h v @ [x]"
      using c4 d le sz by (simp add: elems_def buffer_def take_Suc_conv_app_nth)
    ultimately show ?thesis using p True by auto
  qed
qed

lemma end_it_eq: "end_it v = ptr_add (begin_it v) (size_m v)"
  by (simp add: end_it_def begin_it_def)

lemma begin_it_block:
  "raw_ptr_m (items_m v) = Ptr a 0 \<Longrightarrow> 0 < size_m v \<Longrightarrow> begin_it v = Ptr a 0"
  by (simp add: begin_it_def ArrayPtr_at_def)

lemma begin_it_empty: "size_m v = 0 \<Longrightarrow> begin_it v = Null"
  by (simp add: begin_it_def)

lemma take_drop_take:
  "j \<le> s \<Longrightarrow> take (j - i) (drop i (take s xs)) = take (j - i) (drop i xs)"
  by (simp add: drop_take min_def)

lemma std_copy_from_live:
  assumes "valid h v" and "i \<le> j" "j \<le> size_m v"
    and "cells h1 b = Some ys" and "k + (j - i) \<le> length ys"
    and "\<And>a. a < next_addr h \<Longrightarrow> cells h1 a = cells h a" and "next_addr h \<le> b"
  shows "std_copy h1 (ptr_add (begin_it v) i) (ptr_add (begin_it v) j) (Ptr b k) =
           Some (h1\<lparr>cells := (cells h1)(b \<mapsto>
             take k ys @ take (j - i) (drop i (elems h v)) @ drop (k + (j - i)) ys)\<rparr>)"
proof (cases "size_m v = 0")
  case True
  then show ?thesis using assms(2,3,4)
    by (simp add: std_copy_def begin_it_empty fun_upd_idem)
next
  case False
  from assms(1) show ?thesis
  proof (cases rule: valid_cases)
    case null
    then show ?thesis using False by simp
  next
    case (block a xs)
    have c: "cells h1 a = Some xs" using assms(6) block by simp
    have ab: "a \<noteq> b" using block assms(7) by simp
    have "copy_loop (j - i) h1 (Ptr a i) (Ptr b k) =
        Some (h1\<lparr>cells := (cells h1)(b \<mapsto> take k ys @ take (j - i) (drop i xs) @ drop (k + (j - i)) ys)\<rparr>)"
      apply (rule copy_loop_cells[OF c assms(4)]) using block assms(2,3,5) ab by auto
    then show ?thesis using False block assms(2,3)
      by (simp add: std_copy_def begin_it_block elems_block[OF block(1,3)] take_drop_take)
  qed
qed

lemma std_copy_backward_from_live:
  assumes "valid h v" and "i \<le> j" "j \<le> size_m v"
    and "cells h1 b = Some ys" and "j - i \<le> k" "k \<le> length ys"
    and "\<And>a. a < next_addr h \<Longrightarrow> cells h1 a = cells h a" and "next_addr h \<le> b"
  shows "std_copy_backward h1 (ptr_add (begin_it v) i) (ptr_add (begin_it v) j) (Ptr b k) =
           Some (h1\<lparr>cells := (cells h1)(b \<mapsto>
             take (k - (j - i)) ys @ take (j - i) (drop i (elems h v)) @ drop k ys)\<rparr>)"
proof (cases "size_m v = 0")
  case True
  then show ?thesis using assms(2,3,4)
    by (simp add: std_copy_backward_def begin_it_empty fun_upd_idem)
next
  case False
  from assms(1) show ?thesis
  proof (cases rule: valid_cases)
    case null
    then show ?thesis using False by simp
  next
    case (block a xs)
    have c: "cells h1 a = Some xs" using assms(7) block by simp
    have ab: "a \<noteq> b" using block assms(8) by simp
    have "copy_backward_loop (j - i) h1 (Ptr a j) (Ptr b k) =
        Some (h1\<lparr>cells := (cells h1)(b \<mapsto> take (k - (j - i)) ys @ take (j - i) (drop (j - (j - i)) xs) @ drop k ys)\<rparr>)"
      apply (rule copy_backward_loop_cells[OF c assms(4)]) using block assms(2,3,5,6) ab by auto
    then show ?thesis using False block assms(2,3)
      by (simp add: std_copy_backward_def begin_it_block elems_block[OF block(1,3)] take_drop_take)
  qed
qed

lemma Reserve_core:
  assumes v: "valid h v" and n: "capacity_m v < n"
  shows "(\<exists>h' v'. Reserve ctor h v n = Return () (h', v') \<and> valid h' v' \<and>
            elems h' v' = elems h v \<and> size_m v' = size_m v \<and> capacity_m v' = n \<and>
            buffer_slots h' v' = n)
         \<or> (\<exists>e. Reserve ctor h v n = Throw e (h, v) \<and> ArrayPtr_new ctor h n = Inl e)"
proof (cases "ArrayPtr_new ctor h n")
  case (Inl e)
  then show ?thesis using n by (simp add: Reserve_def)
next
  case (Inr r)
  obtain h1 tmp where r: "r = (h1, tmp)" by (cases r)
  from Inr r have "ArrayPtr_new ctor h n = Inr (h1, tmp)" by simp
  then obtain d where d: "ctor = Some d" "n \<le> max_array_len"
      "tmp = \<lparr>raw_ptr_m = Ptr (next_addr h) 0\<rparr>"
      "h1 = h\<lparr>cells := (cells h)(next_addr h \<mapsto> replicate n d),
         next_addr := Suc (next_addr h), avail := avail h - n\<rparr>"
    using n by (elim ArrayPtr_new_Inr) auto
  let ?b = "next_addr h"
  let ?ys = "replicate n d"
  let ?zs = "elems h v @ drop (size_m v) ?ys"
  have old: "\<And>a. a < next_addr h \<Longrightarrow> cells h1 a = cells h a" using d by simp
  have c1: "cells h1 ?b = Some ?ys" using d by simp
  have sz: "size_m v < n" using valid_size_le[OF v] n by simp
  have le: "length (elems h v) = size_m v" by (rule length_elems[OF v])
  define h2 where "h2 = h1\<lparr>cells := (cells h1)(?b \<mapsto> ?zs)\<rparr>"
  have cp: "std_copy h1 (begin_it v) (end_it v) (ArrayPtr_at tmp 0) = Some h2"
    using std_copy_live[OF v c1 _ old] sz d by (simp add: ArrayPtr_at_def h2_def)
  have old2: "\<And>a. a < next_addr h \<Longrightarrow> cells h2 a = cells h a" using d by (simp add: h2_def)
  have c2: "cells h2 ?b = Some ?zs" by (simp add: h2_def)
  have n2: "next_addr h2 = Suc ?b" using d by (simp add: h2_def)
  obtain h3 where h3: "ArrayPtr_dtor h2 (items_m v) = Some h3"
    "\<forall>b. next_addr h \<le> b \<longrightarrow> cells h3 b = cells h2 b" "next_addr h3 = next_addr h2"
    using ArrayPtr_dtor_old[OF v old2] by blast
  let ?v1 = "v\<lparr>items_m := tmp, capacity_m := n\<rparr>"
  have p: "Reserve ctor h v n = Return () (h3, ?v1)"
    using n Inr r cp h3(1) by (simp add: Reserve_def ArrayPtr_swap_eq)
  have c3: "cells h3 ?b = Some ?zs" using h3(2) c2 by simp
  have lz: "length ?zs = n" using le sz by simp
  have "valid h3 ?v1"
    using c3 h3(3) n2 d lz sz by (simp add: valid_def del: length_append length_drop)
  moreover have "elems h3 ?v1 = elems h v"
    using c3 d le by (simp add: elems_def buffer_def)
  moreover have "buffer_slots h3 ?v1 = n"
    using c3 d lz by (simp add: buffer_slots_def buffer_def del: length_append length_drop)
  ultimately show ?thesis using p by auto
qed

lemma Erase_core:
  assumes v: "valid h v" and p: "p < size_m v"
  shows "\<exists>h' v'. Erase nd h v (ptr_add (begin_it v) p) = Return (ptr_add (begin_it v') p) (h', v') \<and>
           valid h' v' \<and> elems h' v' = take p (elems h v) @ drop (Suc p) (elems h v) \<and>
           size_m v' = size_m v - 1 \<and> capacity_m v' = capacity_m v"
  using v
proof (cases rule: valid_cases)
  case null
  then show ?thesis using p by simp
next
  case (block a xs)
  let ?s = "size_m v"
  have b: "begin_it v = Ptr a 0" using block p by (simp add: begin_it_block)
  have e: "end_it v = Ptr a ?s" using b by (simp add: end_it_eq)
  let ?zs = "take p xs @ take (?s - Suc p) (drop (Suc p) xs) @ drop (p + (?s - Suc p)) xs"
  define h1 where "h1 = h\<lparr>cells := (cells h)(a \<mapsto> ?zs)\<rparr>"
  have "copy_loop (?s - Suc p) h (Ptr a (Suc p)) (Ptr a p) = Some h1"
    unfolding h1_def
    apply (rule copy_loop_cells[OF block(3) block(3)]) using block p by auto
  then have cp: "std_copy h (ptr_add (ptr_add (begin_it v) p) 1) (end_it v) (ptr_add (begin_it v) p) = Some h1"
    using p by (simp add: std_copy_def b e)
  have dec: "size_t_dec ?s = ?s - 1"
    using size_t_dec_Suc[of "?s - 1"] max_array_len_Suc[of "?s - 1"] block p by simp
  let ?v1 = "v\<lparr>size_m := ?s - 1\<rparr>"
  have r: "Erase nd h v (ptr_add (begin_it v) p) = Return (ptr_add (begin_it ?v1) p) (h1, ?v1)"
    using p cp dec by (simp add: Erase_def assert_fails_def b e ptr_less_def Let_def)
  have c1: "cells h1 a = Some ?zs" by (simp add: h1_def)
  have n1: "next_addr h1 = next_addr h" by (simp add: h1_def)
  have lz: "length ?zs = length xs" using block p by simp
  have "valid h1 ?v1" using c1 n1 lz block by (simp add: valid_def del: length_append length_drop)
  moreover have "elems h1 ?v1 = take p (elems h v) @ drop (Suc p) (elems h v)"
  proof -
    have "?s - Suc 0 \<le> p \<Longrightarrow> ?s - Suc 0 = p" using p by simp
    then show ?thesis
      using c1 block p by (auto simp add: elems_def buffer_def drop_take min_def)
  qed
  ultimately show ?thesis using r by auto
qed

section \<open>Evaluation on concrete states\<close>

lemma fill_loop_numeral:
  "fill_loop (numeral k) h p x =
     (case wr h p x of None \<Rightarrow> None | Some h' \<Rightarrow> fill_loop (pred_numeral k) h' (ptr_add p 1) x)"
  by (simp add: numeral_eq_Suc)

lemma copy_loop_numeral:
  "copy_loop (numeral k) h s d =
     (case rd h s of None \<Rightarrow> None
      | Some x \<Rightarrow> (case wr h d x of None \<Rightarrow> None
          | Some h' \<Rightarrow> copy_loop (pred_numeral k) h' (ptr_add s 1) (ptr_add d 1)))"
  by (simp add: numeral_eq_Suc)

lemma ptr_dec_numeral: "ptr_dec (Ptr a (numeral k)) = Some (Ptr a (pred_numeral k))"
  by (simp add: numeral_eq_Suc)

lemma copy_backward_loop_numeral:
  "copy_backward_loop (numeral k) h l d =
     (case ptr_dec l of None \<Rightarrow> None
      | Some l' \<Rightarrow> (case ptr_dec d of None \<Rightarrow> None
          | Some d' \<Rightarrow> (case rd h l' of None \<Rightarrow> None
              | Some x \<Rightarrow> (case wr h d' x of None \<Rightarrow> None
                  | Some h' \<Rightarrow> copy_backward_loop (pred_numeral k) h' l' d'))))"
  by (simp add: numeral_eq_Suc)

lemma replicate_numeral_unfold: "replicate (numeral k) x = x # replicate (pred_numeral k) x"
  by (simp add: numeral_eq_Suc)

lemma list_update_Cons_numeral: "(x # xs)[numeral k := y] = x # xs[pred_numeral k := y]"
  by (simp add: numeral_eq_Suc)

lemmas eval_defs = replicate_numeral_unfold list_update_Cons_numeral
  SimpleVector_init_def SimpleVector_fill_def SimpleVector_default_def
  ArrayPtr_new_def new_array_def ArrayPtr_dtor_def delete_array_def ArrayPtr_at_def
  ArrayPtr_swap_def rd_def wr_def std_copy_def std_copy_backward_def std_fill_def
  begin_it_def end_it_def size_t_def size_t_dec_def SIZE_MOD_def max_array_len_def
  assert_fails_def elems_def buffer_def buffer_slots_def
  fill_loop_numeral copy_loop_numeral copy_backward_loop_numeral ptr_dec_numeral

section \<open>The invariant under construction and the other modifiers\<close>

lemma valid_default: "valid h SimpleVector_default"
  by (simp add: valid_def SimpleVector_default_def)

lemma Clear_valid: "valid h v \<Longrightarrow> valid h (Clear v)"
  by (simp add: valid_def Clear_def split: ptr.splits option.splits)

lemma PopBack_valid:
  assumes "valid h v" "size_m v \<noteq> 0"
  shows "PopBack ndebug v = Return () (v\<lparr>size_m := size_m v - 1\<rparr>) \<and>
         valid h (v\<lparr>size_m := size_m v - 1\<rparr>)"
proof -
  have "size_t_dec (size_m v) = size_m v - 1"
    using size_t_dec_Suc[of "size_m v - 1"] max_array_len_Suc[of "size_m v - 1"]
      valid_size_le[OF assms(1)] valid_capacity_le[OF assms(1)] assms(2) by simp
  moreover have "valid h (v\<lparr>size_m := size_m v - 1\<rparr>)"
    using assms(1) by (auto simp add: valid_def split: ptr.splits option.splits)
  ultimately show ?thesis using assms(2) by (simp add: PopBack_def assert_fails_def)
qed

lemma swap_vec_valid:
  "valid h a \<Longrightarrow> valid h b \<Longrightarrow> swap_vec a b = (a', b') \<Longrightarrow> valid h a' \<and> valid h b'"
  by (auto simp add: swap_vec_def ArrayPtr_swap_eq valid_def split: ptr.splits option.splits)

lemma Resize_within_capacity:
  "n \<le> capacity_m v \<Longrightarrow> Resize ctor h v n = Return () (h, v\<lparr>size_m := n\<rparr>)"
  by (simp add: Resize_def)

lemma Resize_valid:
  assumes v: "valid h v"
  shows "(\<exists>h' v'. Resize ctor h v n = Return () (h', v') \<and> valid h' v' \<and> size_m v' = n \<and>
            take (min n (size_m v)) (elems h' v') = take (min n (size_m v)) (elems h v))
         \<or> (\<exists>e. Resize ctor h v n = Throw e (h, v) \<and> capacity_m v < n)"
proof (cases "n \<le> capacity_m v")
  case True
  have "valid h (v\<lparr>size_m := n\<rparr>)" using v True
    by (simp add: valid_def split: ptr.splits option.splits)
  moreover have "take (min n (size_m v)) (elems h (v\<lparr>size_m := n\<rparr>)) =
      take (min n (size_m v)) (elems h v)"
    by (simp add: elems_def buffer_def min_def split: ptr.splits option.splits)
  ultimately show ?thesis using Resize_within_capacity[OF True, of ctor h] by auto
next
  case False
  then have n: "capacity_m v < n" by simp
  have sn: "size_m v < n" using valid_size_le[OF v] n by simp
  let ?m = "max n (2 * capacity_m v)"
  have nc: "max n (size_t (2 * capacity_m v)) = ?m"
    using max_array_len_double[OF valid_capacity_le[OF v]] by (simp add: size_t_id)
  show ?thesis
  proof (cases "ArrayPtr_new ctor h ?m")
    case (Inl e)
    then show ?thesis using n sn nc by (simp add: Resize_def)
  next
    case (Inr r)
    obtain h1 tmp where r: "r = (h1, tmp)" by (cases r)
    from Inr r have "ArrayPtr_new ctor h ?m = Inr (h1, tmp)" by simp
    then obtain d where d: "ctor = Some d" "?m \<le> max_array_len"
        "tmp = \<lparr>raw_ptr_m = Ptr (next_addr h) 0\<rparr>"
        "h1 = h\<lparr>cells := (cells h)(next_addr h \<mapsto> replicate ?m d),
           next_addr := Suc (next_addr h), avail := avail h - ?m\<rparr>"
      using n by (elim ArrayPtr_new_Inr) auto
    let ?b = "next_addr h"
    let ?zs = "elems h v @ drop (size_m v) (replicate ?m d)"
    have old: "\<And>a. a < next_addr h \<Longrightarrow> cells h1 a = cells h a" using d by simp
    have c1: "cells h1 ?b = Some (replicate ?m d)" using d by simp
    have le: "length (elems h v) = size_m v" by (rule length_elems[OF v])
    define h2 where "h2 = h1\<lparr>cells := (cells h1)(?b \<mapsto> ?zs)\<rparr>"
    have cp: "std_copy h1 (begin_it v) (end_it v) (ArrayPtr_at tmp 0) = Some h2"
      using std_copy_live[OF v c1 _ old] sn d by (simp add: ArrayPtr_at_def h2_def)
    have old2: "\<And>a. a < next_addr h \<Longrightarrow> cells h2 a = cells h a" using d by (simp add: h2_def)
    have c2: "cells h2 ?b = Some ?zs" by (simp add: h2_def)
    have n2: "next_addr h2 = Suc ?b" using d by (simp add: h2_def)
    obtain h3 where h3: "ArrayPtr_dtor h2 (items_m v) = Some h3"
      "\<forall>b. next_addr h \<le> b \<longrightarrow> cells h3 b = cells h2 b" "next_addr h3 = next_addr h2"
      using ArrayPtr_dtor_old[OF v old2] by blast
    let ?v1 = "v\<lparr>items_m := tmp, size_m := n, capacity_m := ?m\<rparr>"
    have p: "Resize ctor h v n = Return () (h3, ?v1)"
      using n sn nc Inr r cp h3(1) by (simp add: Resize_def ArrayPtr_swap_eq)
    have c3: "cells h3 ?b = Some ?zs" using h3(2) c2 by simp
    have lz: "length ?zs = ?m" using le sn by simp
    have "valid h3 ?v1"
      using c3 h3(3) n2 d lz by (simp add: valid_def del: length_append length_drop)
    moreover have "take (min n (size_m v)) (elems h3 ?v1) = take (min n (size_m v)) (elems h v)"
      using c3 d le sn by (simp add: elems_def buffer_def min_def)
    ultimately show ?thesis using p by auto
  qed
qed

lemma std_fill_all:
  assumes "cells h a = Some xs" "n = length xs"
  shows "std_fill h (begin_it \<lparr>items_m = \<lparr>raw_ptr_m = Ptr a 0\<rparr>, size_m = n, capacity_m = n\<rparr>)
           (end_it \<lparr>items_m = \<lparr>raw_ptr_m = Ptr a 0\<rparr>, size_m = n, capacity_m = n\<rparr>) x =
         Some (h\<lparr>cells := (cells h)(a \<mapsto> replicate n x)\<rparr>)"
proof (cases "n = 0")
  case True
  then show ?thesis using assms
    by (simp add: std_fill_def begin_it_def end_it_def fun_upd_idem)
next
  case False
  have "fill_loop n h (Ptr a 0) x =
      Some (h\<lparr>cells := (cells h)(a \<mapsto> take 0 xs @ replicate n x @ drop (0 + n) xs)\<rparr>)"
    by (rule fill_loop_cells[OF assms(1)]) (simp add: assms(2))
  then show ?thesis using False assms
    by (simp add: std_fill_def begin_it_def end_it_def ArrayPtr_at_def)
qed

lemma SimpleVector_fill_valid:
  "(\<exists>h' v. SimpleVector_fill ctor h n x = Return v h' \<and> valid h' v \<and>
      elems h' v = replicate n x \<and> size_m v = n \<and> capacity_m v = n)
   \<or> (\<exists>e. SimpleVector_fill ctor h n x = Throw e h)"
proof (cases "n = 0")
  case True
  then show ?thesis
    by (simp add: SimpleVector_fill_def ArrayPtr_new_def std_fill_def begin_it_def end_it_def
        valid_def elems_def buffer_def)
next
  case False
  show ?thesis
  proof (cases "ArrayPtr_new ctor h n")
    case (Inl e)
    then show ?thesis by (simp add: SimpleVector_fill_def)
  next
    case (Inr r)
    obtain h1 tmp where r: "r = (h1, tmp)" by (cases r)
    from Inr r have "ArrayPtr_new ctor h n = Inr (h1, tmp)" by simp
    then obtain d where d: "ctor = Some d" "n \<le> max_array_len"
        "tmp = \<lparr>raw_ptr_m = Ptr (next_addr h) 0\<rparr>"
        "h1 = h\<lparr>cells := (cells h)(next_addr h \<mapsto> replicate n d),
           next_addr := Suc (next_addr h), avail := avail h - n\<rparr>"
      using False by (elim ArrayPtr_new_Inr) auto
    have c1: "cells h1 (next_addr h) = Some (replicate n d)" using d by simp
    let ?v = "\<lparr>items_m = tmp, size_m = n, capacity_m = n\<rparr>"
    define h2 where "h2 = h1\<lparr>cells := (cells h1)(next_addr h \<mapsto> replicate n x)\<rparr>"
    have f: "std_fill h1 (begin_it ?v) (end_it ?v) x = Some h2"
      using std_fill_all[OF c1, of n x] d(3) by (simp add: h2_def)
    have p: "SimpleVector_fill ctor h n x = Return ?v h2"
      using Inr r f by (simp add: SimpleVector_fill_def)
    have "valid h2 ?v" using d by (simp add: valid_def h2_def)
    moreover have "elems h2 ?v = replicate n x" using d by (simp add: elems_def buffer_def h2_def)
    ultimately show ?thesis using p by simp
  qed
qed

lemma SimpleVector_init_valid:
  "(\<exists>h' v. SimpleVector_init ctor h init = Return v h' \<and> valid h' v \<and>
      elems h' v = init \<and> size_m v = length init \<and> capacity_m v = length init)
   \<or> (\<exists>e. SimpleVector_init ctor h init = Throw e h)"
proof (cases "init = []")
  case True
  then show ?thesis
    by (simp add: SimpleVector_init_def ArrayPtr_new_def valid_def elems_def buffer_def)
next
  case False
  let ?n = "length init"
  show ?thesis
  proof (cases "ArrayPtr_new ctor h ?n")
    case (Inl e)
    then show ?thesis by (simp add: SimpleVector_init_def)
  next
    case (Inr r)
    obtain h1 tmp where r: "r = (h1, tmp)" by (cases r)
    from Inr r have "ArrayPtr_new ctor h ?n = Inr (h1, tmp)" by simp
    then obtain d where d: "ctor = Some d" "?n \<le> max_array_len"
        "tmp = \<lparr>raw_ptr_m = Ptr (next_addr h) 0\<rparr>"
        "h1 = h\<lparr>cells := (cells h)(next_addr h \<mapsto> replicate ?n d),
           next_addr := Suc (next_addr h), avail := avail h - ?n\<rparr>"
      using False by (elim ArrayPtr_new_Inr) auto
    have c1: "cells h1 (next_addr h) = Some (replicate ?n d)" using d by simp
    define h2 where "h2 = h1\<lparr>cells := (cells h1)(next_addr h \<mapsto> init)\<rparr>"
    have "init_loop h1 \<lparr>raw_ptr_m = Ptr (next_addr h) 0\<rparr> 0 init =
        Some (h1\<lparr>cells := (cells h1)(next_addr h \<mapsto>
          take 0 (replicate ?n d) @ init @ drop (0 + length init) (replicate ?n d))\<rparr>)"
      by (rule init_loop_cells[OF c1]) simp
    then have f: "init_loop h1 tmp 0 init = Some h2" using d(3) by (simp add: h2_def)
    let ?v = "\<lparr>items_m = tmp, size_m = ?n, capacity_m = ?n\<rparr>"
    have p: "SimpleVector_init ctor h init = Return ?v h2"
      using Inr r f by (simp add: SimpleVector_init_def)
    have "valid h2 ?v" using d by (simp add: valid_def h2_def)
    moreover have "elems h2 ?v = init" using d by (simp add: elems_def buffer_def h2_def)
    ultimately show ?thesis using p by simp
  qed
qed

section \<open>Specified properties\<close>

text \<open>
  C3. For every valid sequence and every value \<open>x\<close>, \<open>PushBack(x)\<close> either returns, and then
  \<open>GetSize()\<close> has grown by one, \<open>At(oldSize)\<close> reads \<open>x\<close>, every position below the old size
  reads what it read before, and \<open>GetSize() \<le> GetCapacity()\<close> (the sequence is valid again);
  or it throws, which happens only when the sequence was full and the allocation of the
  replacement buffer failed, and then nothing has changed.
\<close>

theorem PushBack_spec:
  assumes "valid h v"
  shows "(\<exists>h' v'. PushBack ctor h v x = Return () (h', v') \<and>
            GetSize v' = GetSize v + 1 \<and>
            At_value h' v' (GetSize v) = Some x \<and>
            (\<forall>i<GetSize v. \<exists>y. At_value h v i = Some y \<and> At_value h' v' i = Some y) \<and>
            GetSize v' \<le> GetCapacity v' \<and> valid h' v')
         \<or> (\<exists>e. PushBack ctor h v x = Throw e (h, v) \<and> GetSize v = GetCapacity v \<and>
               ArrayPtr_new ctor h (max (2 * GetCapacity v) 1) = Inl e)"
proof -
  from PushBack_core[OF assms, of ctor x] show ?thesis
  proof (elim disjE exE conjE)
    fix h' v'
    assume r: "PushBack ctor h v x = Return () (h', v')" and v': "valid h' v'"
      and el: "elems h' v' = elems h v @ [x]" and sz: "size_m v' = size_m v + 1"
    have len: "length (elems h v) = size_m v" by (rule length_elems[OF assms])
    have a: "At_value h' v' (size_m v) = Some x"
      using At_value_valid[OF v', of "size_m v"] sz el len by (simp add: nth_append)
    have b: "\<forall>i<size_m v. \<exists>y. At_value h v i = Some y \<and> At_value h' v' i = Some y"
    proof (intro allI impI)
      fix i assume i: "i < size_m v"
      have "At_value h' v' i = Some (elems h' v' ! i)"
        using At_value_valid[OF v', of i] i sz by simp
      then show "\<exists>y. At_value h v i = Some y \<and> At_value h' v' i = Some y"
        using At_value_valid[OF assms i] el len i by (simp add: nth_append)
    qed
    show ?thesis
      using r v' sz a b valid_size_le[OF v'] by (simp add: GetSize_def GetCapacity_def)
  next
    fix e
    assume "PushBack ctor h v x = Throw e (h, v)" "size_m v = capacity_m v"
      "ArrayPtr_new ctor h (max (2 * capacity_m v) 1) = Inl e"
    then show ?thesis by (simp add: GetSize_def GetCapacity_def)
  qed
qed

text \<open>The theorem at \<open>{1, 2, 3}\<close> with capacity 3, pushing 4: the reallocating path.\<close>

theorem PushBack_spec_witness:
  "valid ex_heap ex_vec \<and>
   (\<exists>h' v'. PushBack (Some 0) ex_heap ex_vec 4 = Return () (h', v') \<and>
      GetSize v' = 4 \<and> At_value h' v' 3 = Some 4 \<and>
      At_value h' v' 0 = Some 1 \<and> At_value h' v' 1 = Some 2 \<and> At_value h' v' 2 = Some 3 \<and>
      GetSize v' \<le> GetCapacity v')"
proof -
  have v: "valid ex_heap ex_vec"
    by (simp add: valid_def ex_heap_def ex_vec_def max_array_len_def)
  have a: "ArrayPtr_new (Some 0) ex_heap (max (2 * GetCapacity ex_vec) 1) \<noteq> Inl e" for e
    by (simp add: ArrayPtr_new_def new_array_def ex_heap_def ex_vec_def GetCapacity_def
        max_array_len_def)
  have s: "GetSize ex_vec = 3" by (simp add: GetSize_def ex_vec_def)
  have o: "At_value ex_heap ex_vec 0 = Some 1" "At_value ex_heap ex_vec 1 = Some 2"
    "At_value ex_heap ex_vec 2 = Some 3"
    by (simp_all add: At_value_def At_def ArrayPtr_at_def rd_def ex_heap_def ex_vec_def)
  from PushBack_spec[OF v, of "Some 0" 4] a s
  obtain h' v' where r: "PushBack (Some 0) ex_heap ex_vec 4 = Return () (h', v')"
    "GetSize v' = 4" "At_value h' v' 3 = Some 4"
    "\<forall>i<3. \<exists>y. At_value ex_heap ex_vec i = Some y \<and> At_value h' v' i = Some y"
    "GetSize v' \<le> GetCapacity v'"
    by auto
  have "At_value h' v' 0 = Some 1" using r(4)[rule_format, of 0] o by auto
  moreover have "At_value h' v' 1 = Some 2" using r(4)[rule_format, of 1] o by auto
  moreover have "At_value h' v' 2 = Some 3" using r(4)[rule_format, of 2] o by auto
  ultimately show ?thesis using v r by simp
qed

text \<open>
  C10. Move-assigning a sequence to itself leaves it as it was: \<open>std::exchange\<close> reads the
  member before it resets it, and the assignment then stores the value read back into the
  same member. This holds for the buffer pointer, the size and the capacity, for every
  object of every store.
\<close>

theorem move_assign_self: "move_assign st r r = st"
proof -
  have a: "ArrayPtr_move_assign st r r = st"
    by (simp add: ArrayPtr_move_assign_def Let_def)
  show ?thesis
    by (simp add: move_assign_def a Let_def)
qed









text \<open>
  C7. \<open>At(index)\<close> throws \<open>std::out_of_range\<close> exactly when \<open>index \<ge> size\<close>; otherwise it
  returns the reference \<open>items_[index]\<close>, through which a valid sequence reads its element
  number \<open>index\<close>. \<open>operator[]\<close> never throws that exception: with \<open>NDEBUG\<close> it returns
  \<open>items_[index]\<close> for every index without looking at the size, and with assertions
  compiled in it stops the program instead of reporting an error.
\<close>

theorem At_spec:
  "(At v i = Throw OutOfRange () \<longleftrightarrow> GetSize v \<le> i) \<and>
   (i < GetSize v \<longrightarrow> At v i = Return (ArrayPtr_at (items_m v) i) ()) \<and>
   (valid h v \<and> i < GetSize v \<longrightarrow>
      (\<exists>p. At v i = Return p () \<and> rd h p = Some (elems h v ! i))) \<and>
   index_op ndebug v i \<noteq> Throw OutOfRange () \<and>
   index_op True v i = Return (ArrayPtr_at (items_m v) i) () \<and>
   (index_op False v i = Abort \<longleftrightarrow> GetSize v \<le> i)"
proof -
  have "valid h v \<and> i < GetSize v \<longrightarrow> (\<exists>p. At v i = Return p () \<and> rd h p = Some (elems h v ! i))"
  proof
    assume a: "valid h v \<and> i < GetSize v"
    then have "At_value h v i = Some (elems h v ! i)"
      using At_value_valid[of h v i] by (simp add: GetSize_def)
    then show "\<exists>p. At v i = Return p () \<and> rd h p = Some (elems h v ! i)"
      using a by (simp add: At_value_def At_def GetSize_def)
  qed
  then show ?thesis
    by (auto simp add: At_def index_op_def GetSize_def assert_fails_def)
qed

text \<open>The theorem at \<open>{1, 2, 3}\<close>, for the indices 10, 3 and 2.\<close>

theorem At_spec_witness:
  "At ex_vec 10 = Throw OutOfRange () \<and> At ex_vec 3 = Throw OutOfRange () \<and>
   valid ex_heap ex_vec \<and> At ex_vec 2 = Return (Ptr 0 2) () \<and> rd ex_heap (Ptr 0 2) = Some 3 \<and>
   index_op True ex_vec 10 = Return (Ptr 0 10) () \<and> index_op False ex_vec 10 = Abort"
proof -
  have v: "valid ex_heap ex_vec"
    by (simp add: valid_def ex_heap_def ex_vec_def max_array_len_def)
  have s: "GetSize ex_vec = 3" by (simp add: GetSize_def ex_vec_def)
  have p: "ArrayPtr_at (items_m ex_vec) i = Ptr 0 i" for i
    by (simp add: ArrayPtr_at_def ex_vec_def)
  have e: "elems ex_heap ex_vec = [1, 2, 3]"
    by (simp add: elems_def buffer_def ex_heap_def ex_vec_def)
  show ?thesis
    using At_spec[of ex_vec 10 ex_heap False] At_spec[of ex_vec 3 ex_heap False]
      At_spec[of ex_vec 2 ex_heap False] v s p e
    by auto
qed

lemma valid_ex: "valid ex_heap ex_vec"
  by (simp add: valid_def ex_heap_def ex_vec_def max_array_len_def)

text \<open>
  C1. The invariant \<open>capacity_ = number of slots of the buffer\<close> does not survive copy
  assignment. Take \<open>{1, 2, 3}\<close> (capacity 3) after \<open>PopBack()\<close>, a valid sequence of size 2 and
  capacity 3, and copy-assign it to an empty sequence: the new buffer has \<open>rhs.size_ = 2\<close>
  slots, but \<open>capacity_\<close> is set to \<open>rhs.capacity_ = 3\<close>. The result is not a valid sequence,
  and the next \<open>PushBack\<close> writes to slot 2 of a two-slot array. The copy constructor, on
  the same source, leaves capacity 2 for its two-slot buffer.
\<close>

theorem copy_assign_capacity_mismatch:
  "(case PopBack False ex_vec of
      Return u rhs \<Rightarrow>
        valid ex_heap rhs \<and> GetSize rhs = 2 \<and> GetCapacity rhs = 3 \<and>
        (case copy_assign False (Some 0) ex_heap SimpleVector_default rhs of
           Return u' (h', v') \<Rightarrow>
             GetSize v' = 2 \<and> GetCapacity v' = 3 \<and> buffer_slots h' v' = 2 \<and>
             \<not> valid h' v' \<and> PushBack (Some 0) h' v' 9 = Undefined
         | _ \<Rightarrow> False) \<and>
        (case SimpleVector_copy (Some 0) ex_heap rhs of
           Return v' h' \<Rightarrow> GetSize v' = 2 \<and> GetCapacity v' = 2 \<and> buffer_slots h' v' = 2
         | _ \<Rightarrow> False)
    | _ \<Rightarrow> False)"
  by (simp add: eval_defs PopBack_def copy_assign_def PushBack_def SimpleVector_copy_def
      SimpleVector_sized_def valid_def GetSize_def GetCapacity_def ex_heap_def ex_vec_def)

text \<open>
  C2. \<open>Resize\<close> within the capacity only raises \<open>size_\<close>, so the slots it exposes hold
  whatever was last written there. On \<open>{1, 2, 3}\<close> after \<open>PopBack()\<close> (size 2, capacity 3),
  \<open>Resize(3)\<close> gives \<open>{1, 2, 3}\<close>: position 2 reads 3, not the default value 0. The
  reallocating branch does give default values: \<open>SimpleVector(3, 7)\<close> followed by
  \<open>Resize(5)\<close> is \<open>{7, 7, 7, 0, 0}\<close>.
\<close>

theorem Resize_in_place_keeps_old_values:
  "(case PopBack False ex_vec of
      Return u v1 \<Rightarrow>
        valid ex_heap v1 \<and> GetSize v1 = 2 \<and> GetCapacity v1 = 3 \<and>
        (case Resize (Some 0) ex_heap v1 3 of
           Return u' (h', v') \<Rightarrow>
             GetSize v' = 3 \<and> elems h' v' = [1, 2, 3] \<and> At_value h' v' 2 = Some 3
         | _ \<Rightarrow> False)
    | _ \<Rightarrow> False) \<and>
   (case SimpleVector_fill (Some 0) empty_heap 3 7 of
      Return v h \<Rightarrow>
        elems h v = [7, 7, 7] \<and>
        (case Resize (Some 0) h v 5 of
           Return u' (h', v') \<Rightarrow> GetSize v' = 5 \<and> elems h' v' = [7, 7, 7, 0, 0]
         | _ \<Rightarrow> False)
    | _ \<Rightarrow> False)"
  by (simp add: eval_defs PopBack_def Resize_def valid_def GetSize_def GetCapacity_def
      At_value_def At_def ex_heap_def ex_vec_def empty_heap_def)

text \<open>
  C9. For a sequence of size 0, \<open>begin()\<close> and \<open>end()\<close> are both \<open>nullptr\<close>, whatever the
  capacity; \<open>cbegin()\<close> and \<open>cend()\<close> are \<open>begin()\<close> and \<open>end()\<close>. For a valid sequence
  \<open>end() - begin()\<close> is the size, and \<open>begin() + i\<close> for \<open>i < size\<close> points to slot \<open>i\<close> of the
  buffer, so that the range is exactly the first \<open>size\<close> slots. Both are functions of the
  sequence alone and return only the pointer: nothing is changed by calling them, and calling
  them again gives the same range.
\<close>

theorem begin_end_spec:
  "(GetSize v = 0 \<longrightarrow> begin_it v = Null \<and> end_it v = Null) \<and>
   cbegin v = begin_it v \<and> cend v = end_it v \<and>
   (valid h v \<longrightarrow>
      ptr_diff (end_it v) (begin_it v) = Some (GetSize v) \<and>
      end_it v = ptr_add (begin_it v) (GetSize v) \<and>
      (\<exists>xs. buffer h v = Some xs \<and> GetSize v \<le> length xs \<and>
         (\<forall>i<GetSize v. rd h (ptr_add (begin_it v) i) = Some (xs ! i))))"
proof -
  have "ptr_diff (end_it v) (begin_it v) = Some (GetSize v) \<and>
      end_it v = ptr_add (begin_it v) (GetSize v) \<and>
      (\<exists>xs. buffer h v = Some xs \<and> GetSize v \<le> length xs \<and>
         (\<forall>i<GetSize v. rd h (ptr_add (begin_it v) i) = Some (xs ! i)))" if v: "valid h v"
    using v
  proof (cases rule: valid_cases)
    case null
    then show ?thesis
      by (simp add: GetSize_def begin_it_def end_it_def buffer_def)
  next
    case (block a xs)
    then show ?thesis
      by (simp add: GetSize_def begin_it_def end_it_def buffer_def ArrayPtr_at_def rd_def)
  qed
  then have m: "valid h v \<longrightarrow>
      ptr_diff (end_it v) (begin_it v) = Some (GetSize v) \<and>
      end_it v = ptr_add (begin_it v) (GetSize v) \<and>
      (\<exists>xs. buffer h v = Some xs \<and> GetSize v \<le> length xs \<and>
         (\<forall>i<GetSize v. rd h (ptr_add (begin_it v) i) = Some (xs ! i)))"
    by (rule impI)
  have a: "GetSize v = 0 \<longrightarrow> begin_it v = Null \<and> end_it v = Null"
    by (simp add: GetSize_def begin_it_def end_it_def)
  have b: "cbegin v = begin_it v" "cend v = end_it v"
    by (simp_all add: cbegin_def cend_def)
  from a b m show ?thesis by (intro conjI)
qed

text \<open>
  The theorem at \<open>{1, 2, 3}\<close> after \<open>Clear()\<close> (size 0, capacity 3) and at \<open>{1, 2, 3}\<close> itself.
\<close>

theorem begin_end_spec_witness:
  "GetSize (Clear ex_vec) = 0 \<and> GetCapacity (Clear ex_vec) = 3 \<and>
   begin_it (Clear ex_vec) = Null \<and> end_it (Clear ex_vec) = Null \<and>
   valid ex_heap ex_vec \<and> begin_it ex_vec = Ptr 0 0 \<and> end_it ex_vec = Ptr 0 3 \<and>
   rd ex_heap (Ptr 0 0) = Some 1 \<and> rd ex_heap (Ptr 0 1) = Some 2 \<and> rd ex_heap (Ptr 0 2) = Some 3"
proof -
  have c: "GetSize (Clear ex_vec) = 0" "GetCapacity (Clear ex_vec) = 3"
    by (simp_all add: GetSize_def GetCapacity_def Clear_def ex_vec_def)
  have n: "begin_it (Clear ex_vec) = Null \<and> end_it (Clear ex_vec) = Null"
    using begin_end_spec[of "Clear ex_vec" ex_heap] c(1) by simp
  have s: "GetSize ex_vec = 3" by (simp add: GetSize_def ex_vec_def)
  have b: "begin_it ex_vec = Ptr 0 0"
    by (simp add: begin_it_def ArrayPtr_at_def ex_vec_def)
  have bf: "buffer ex_heap ex_vec = Some [1, 2, 3]"
    by (simp add: buffer_def ex_heap_def ex_vec_def)
  from begin_end_spec[of ex_vec ex_heap] valid_ex s b bf
  have e: "end_it ex_vec = Ptr 0 3"
    and r: "\<forall>i<3. rd ex_heap (Ptr 0 i) = Some ([1, 2, 3] ! i)"
    by auto
  have "rd ex_heap (Ptr 0 0) = Some 1" using r[rule_format, of 0] by simp
  moreover have "rd ex_heap (Ptr 0 1) = Some 2" using r[rule_format, of 1] by simp
  moreover have "rd ex_heap (Ptr 0 2) = Some 3" using r[rule_format, of 2] by simp
  ultimately show ?thesis using c n valid_ex b e by simp
qed

text \<open>
  C6. On a valid sequence, \<open>Reserve(n)\<close> with \<open>n \<le> capacity\<close> changes nothing. With
  \<open>n > capacity\<close> it either returns a valid sequence whose capacity is \<open>n\<close>, whose buffer has
  exactly \<open>n\<close> slots, and whose size and live elements (in order) are those of the original,
  or it throws because the allocation failed, with nothing changed. Whenever it returns,
  the capacity has not decreased, the size is the same, and every live position reads the
  same value.
\<close>

theorem Reserve_spec:
  assumes "valid h v"
  shows "(n \<le> GetCapacity v \<longrightarrow> Reserve ctor h v n = Return () (h, v)) \<and>
    (GetCapacity v < n \<longrightarrow>
       (\<exists>h' v'. Reserve ctor h v n = Return () (h', v') \<and> valid h' v' \<and>
          GetCapacity v' = n \<and> buffer_slots h' v' = n \<and>
          GetSize v' = GetSize v \<and> elems h' v' = elems h v)
       \<or> (\<exists>e. Reserve ctor h v n = Throw e (h, v) \<and> ArrayPtr_new ctor h n = Inl e)) \<and>
    (\<forall>h' v'. Reserve ctor h v n = Return () (h', v') \<longrightarrow>
       GetCapacity v \<le> GetCapacity v' \<and> GetSize v' = GetSize v \<and>
       elems h' v' = elems h v \<and>
       (\<forall>i<GetSize v. At_value h' v' i = At_value h v i))"
proof (cases "n \<le> capacity_m v")
  case True
  then show ?thesis by (simp add: Reserve_def GetCapacity_def GetSize_def)
next
  case False
  then have n: "capacity_m v < n" by simp
  from Reserve_core[OF assms n, of ctor] show ?thesis
  proof (elim disjE exE conjE)
    fix h' v'
    assume r: "Reserve ctor h v n = Return () (h', v')" and v': "valid h' v'"
      and el: "elems h' v' = elems h v" and sz: "size_m v' = size_m v"
      and cp: "capacity_m v' = n" and bs: "buffer_slots h' v' = n"
    have "At_value h' v' i = At_value h v i" if "i < size_m v" for i
      using At_value_valid[OF v', of i] At_value_valid[OF assms, of i] that sz el by simp
    then show ?thesis
      using r v' el sz cp bs n by (simp add: GetCapacity_def GetSize_def)
  next
    fix e
    assume "Reserve ctor h v n = Throw e (h, v)" "ArrayPtr_new ctor h n = Inl e"
    then show ?thesis using n by (simp add: GetCapacity_def GetSize_def)
  qed
qed

text \<open>The theorem at \<open>{1, 2, 3}\<close> with capacity 3, for \<open>Reserve(2)\<close> and \<open>Reserve(10)\<close>.\<close>

theorem Reserve_spec_witness:
  "valid ex_heap ex_vec \<and> Reserve (Some 0) ex_heap ex_vec 2 = Return () (ex_heap, ex_vec) \<and>
   (\<exists>h' v'. Reserve (Some 0) ex_heap ex_vec 10 = Return () (h', v') \<and>
      GetCapacity v' = 10 \<and> buffer_slots h' v' = 10 \<and> GetSize v' = 3 \<and>
      elems h' v' = [1, 2, 3])"
proof -
  have c: "GetCapacity ex_vec = 3" "GetSize ex_vec = 3"
    by (simp_all add: GetCapacity_def GetSize_def ex_vec_def)
  have e: "elems ex_heap ex_vec = [1, 2, 3]"
    by (simp add: elems_def buffer_def ex_heap_def ex_vec_def)
  have a: "ArrayPtr_new (Some 0) ex_heap 10 \<noteq> Inl e" for e
    by (simp add: ArrayPtr_new_def new_array_def ex_heap_def max_array_len_def)
  have "Reserve (Some 0) ex_heap ex_vec 2 = Return () (ex_heap, ex_vec)"
    using Reserve_spec[OF valid_ex, of 2 "Some 0"] c by simp
  moreover have "\<exists>h' v'. Reserve (Some 0) ex_heap ex_vec 10 = Return () (h', v') \<and>
      GetCapacity v' = 10 \<and> buffer_slots h' v' = 10 \<and> GetSize v' = 3 \<and>
      elems h' v' = [1, 2, 3]"
    using Reserve_spec[OF valid_ex, of 10 "Some 0"] c e a by auto
  ultimately show ?thesis using valid_ex by simp
qed

text \<open>Insertion and removal at a position of a valid sequence.\<close>

lemma ptr_add_0: "ptr_add p 0 = p"
  by (cases p) simp_all

lemma insert_pos_ok:
  assumes "valid h v" "p \<le> size_m v"
  shows "\<not> assert_fails nd (ptr_le (begin_it v) (ptr_add (begin_it v) p) \<and>
            ptr_le (ptr_add (begin_it v) p) (end_it v))"
    and "ptr_diff (ptr_add (begin_it v) p) (begin_it v) = Some p"
proof -
  show "\<not> assert_fails nd (ptr_le (begin_it v) (ptr_add (begin_it v) p) \<and>
            ptr_le (ptr_add (begin_it v) p) (end_it v))"
    using assms(2) by (cases "begin_it v") (simp_all add: assert_fails_def end_it_eq)
  show "ptr_diff (ptr_add (begin_it v) p) (begin_it v) = Some p"
  proof (cases "size_m v = 0")
    case True
    then show ?thesis using assms(2) by (simp add: begin_it_empty)
  next
    case False
    from assms(1) show ?thesis
    proof (cases rule: valid_cases)
      case null
      then show ?thesis using False by simp
    next
      case (block a xs)
      then show ?thesis using False by (simp add: begin_it_block)
    qed
  qed
qed

lemma insert_shift_list:
  assumes "p \<le> s" "s < length xs"
  shows "take (Suc s) ((take (Suc p) xs @ take (s - p) (drop p xs) @ drop (Suc s) xs)[p := x]) =
           take p (take s xs) @ x # drop p (take s xs)"
proof -
  have pl: "p < length xs" using assms by simp
  have 1: "take (Suc p) xs = take p xs @ [xs ! p]"
    using pl by (simp add: take_Suc_conv_app_nth)
  have 2: "(take p xs @ [xs ! p] @ take (s - p) (drop p xs) @ drop (Suc s) xs)[p := x] =
      take p xs @ [x] @ take (s - p) (drop p xs) @ drop (Suc s) xs"
    using pl by (simp add: list_update_append)
  have 3: "take (Suc s) (take p xs @ [x] @ take (s - p) (drop p xs) @ drop (Suc s) xs) =
      take p xs @ [x] @ take (s - p) (drop p xs)"
    using assms pl by (simp add: Suc_diff_le)
  have 4: "take p (take s xs) = take p xs" using assms by (simp add: min_def)
  have 5: "drop p (take s xs) = take (s - p) (drop p xs)" by (simp add: drop_take)
  have "take (Suc s) ((take (Suc p) xs @ take (s - p) (drop p xs) @ drop (Suc s) xs)[p := x]) =
      take (Suc s) ((take p xs @ [xs ! p] @ take (s - p) (drop p xs) @ drop (Suc s) xs)[p := x])"
    by (simp add: 1)
  also have "\<dots> = take (Suc s) (take p xs @ [x] @ take (s - p) (drop p xs) @ drop (Suc s) xs)"
    by (simp only: 2)
  also have "\<dots> = take p xs @ [x] @ take (s - p) (drop p xs)"
    by (rule 3)
  also have "\<dots> = take p (take s xs) @ x # drop p (take s xs)"
    using assms by (simp add: 5 min_def)
  finally show ?thesis .
qed

lemma Insert_in_place:
  assumes v: "valid h v" and p: "p \<le> size_m v" and lt: "size_m v \<noteq> capacity_m v"
  shows "\<exists>h' v'. Insert nd ctor h v (ptr_add (begin_it v) p) x =
             Return (ptr_add (begin_it v') p) (h', v') \<and> valid h' v' \<and>
           elems h' v' = take p (elems h v) @ x # drop p (elems h v) \<and>
           size_m v' = size_m v + 1"
  using v
proof (cases rule: valid_cases)
  case null
  then show ?thesis using lt by simp
next
  case (block a xs)
  let ?s = "size_m v"
  have sl: "?s < length xs" using block lt by simp
  define xs1 where "xs1 = take (Suc p) xs @ take (?s - p) (drop p xs) @ drop (Suc ?s) xs"
  define h1 where "h1 = h\<lparr>cells := (cells h)(a \<mapsto> xs1)\<rparr>"
  have l1: "length xs1 = length xs" using p sl by (simp add: xs1_def)
  have cb: "std_copy_backward h (ptr_add (begin_it v) p) (end_it v) (ptr_add (end_it v) 1) = Some h1"
  proof (cases "?s = 0")
    case True
    then have "xs1 = xs" using p by (simp add: xs1_def)
    then have "h1 = h" using block by (simp add: h1_def fun_upd_idem)
    then show ?thesis using True by (simp add: std_copy_backward_def begin_it_empty end_it_eq)
  next
    case False
    have b: "begin_it v = Ptr a 0" using block False by (simp add: begin_it_block)
    have "copy_backward_loop (?s - p) h (Ptr a ?s) (Ptr a (Suc ?s)) =
        Some (h\<lparr>cells := (cells h)(a \<mapsto> take (Suc ?s - (?s - p)) xs @
          take (?s - p) (drop (?s - (?s - p)) xs) @ drop (Suc ?s) xs)\<rparr>)"
      apply (rule copy_backward_loop_cells[OF block(3) block(3)]) using sl p by auto
    moreover have "Suc ?s - (?s - p) = Suc p" "?s - (?s - p) = p" using p by auto
    ultimately show ?thesis using p
      by (simp add: std_copy_backward_def end_it_eq b h1_def xs1_def)
  qed
  define h2 where "h2 = h1\<lparr>cells := (cells h1)(a \<mapsto> xs1[p := x])\<rparr>"
  have w: "wr h1 (ArrayPtr_at (items_m v) p) x = Some h2"
    using block p sl l1 by (simp add: wr_def ArrayPtr_at_def h1_def h2_def)
  have st: "size_t (?s + 1) = ?s + 1"
    using sl block max_array_len_Suc[of ?s] by (intro size_t_id) simp
  let ?v1 = "v\<lparr>size_m := ?s + 1\<rparr>"
  have r: "Insert nd ctor h v (ptr_add (begin_it v) p) x = Return (ptr_add (begin_it ?v1) p) (h2, ?v1)"
    using insert_pos_ok[OF v p] lt cb w st by (simp add: Insert_def Let_def)
  have c2: "cells h2 a = Some (xs1[p := x])" by (simp add: h2_def)
  have n2: "next_addr h2 = next_addr h" by (simp add: h2_def h1_def)
  have "valid h2 ?v1" using c2 n2 l1 block sl by (simp add: valid_def)
  moreover have "elems h2 ?v1 = take p (elems h v) @ x # drop p (elems h v)"
    using c2 block insert_shift_list[OF p sl, of x]
    by (simp add: elems_def buffer_def xs1_def)
  ultimately show ?thesis using r by auto
qed

lemma Insert_realloc:
  assumes v: "valid h v" and p: "p \<le> size_m v" and full: "size_m v = capacity_m v"
  shows "(\<exists>h' v'. Insert nd ctor h v (ptr_add (begin_it v) p) x =
             Return (ptr_add (begin_it v') p) (h', v') \<and> valid h' v' \<and>
           elems h' v' = take p (elems h v) @ x # drop p (elems h v) \<and>
           size_m v' = size_m v + 1)
         \<or> (\<exists>e. Insert nd ctor h v (ptr_add (begin_it v) p) x = Throw e (h, v) \<and>
               ArrayPtr_new ctor h (max (2 * capacity_m v) 1) = Inl e)"
proof -
  let ?s = "size_m v"
  let ?n = "max (2 * capacity_m v) 1"
  let ?pos = "ptr_add (begin_it v) p"
  let ?es = "elems h v"
  have nc: "max (size_t (2 * capacity_m v)) 1 = ?n"
    using max_array_len_double[OF valid_capacity_le[OF v]] by (simp add: size_t_id)
  note pre = insert_pos_ok[OF v p]
  show ?thesis
  proof (cases "ArrayPtr_new ctor h ?n")
    case (Inl e)
    then show ?thesis using full nc pre by (simp add: Insert_def)
  next
    case (Inr r)
    obtain h1 tmp where r: "r = (h1, tmp)" by (cases r)
    from Inr r have "ArrayPtr_new ctor h ?n = Inr (h1, tmp)" by simp
    then obtain d where d: "ctor = Some d" "?n \<le> max_array_len"
        "tmp = \<lparr>raw_ptr_m = Ptr (next_addr h) 0\<rparr>"
        "h1 = h\<lparr>cells := (cells h)(next_addr h \<mapsto> replicate ?n d),
           next_addr := Suc (next_addr h), avail := avail h - ?n\<rparr>"
      by (rule ArrayPtr_new_Inr) auto
    let ?b = "next_addr h"
    define ys where "ys = replicate ?n d"
    have ly: "length ys = ?n" by (simp add: ys_def)
    have le: "length ?es = ?s" by (rule length_elems[OF v])
    have sn: "?s < ?n" using full by simp
    have old1: "\<And>a. a < next_addr h \<Longrightarrow> cells h1 a = cells h a" using d by simp
    have c1: "cells h1 ?b = Some ys" using d by (simp add: ys_def)
    have n1: "next_addr h1 = Suc ?b" using d by simp
    \<comment> \<open>the prefix\<close>
    define zs2 where "zs2 = take p ?es @ drop p ys"
    define h2 where "h2 = h1\<lparr>cells := (cells h1)(?b \<mapsto> zs2)\<rparr>"
    have "std_copy h1 (ptr_add (begin_it v) 0) (ptr_add (begin_it v) p) (Ptr ?b 0) =
        Some (h1\<lparr>cells := (cells h1)(?b \<mapsto>
             take 0 ys @ take (p - 0) (drop 0 ?es) @ drop (0 + (p - 0)) ys)\<rparr>)"
      apply (rule std_copy_from_live[OF v _ p c1 _ old1]) using p sn ly by auto
    then have cp: "std_copy h1 (begin_it v) ?pos (ArrayPtr_at tmp 0) = Some h2"
      using d by (simp add: ptr_add_0 ArrayPtr_at_def h2_def zs2_def)
    have l2: "length zs2 = ?n" using p le sn ly by (simp add: zs2_def)
    have old2: "\<And>a. a < next_addr h \<Longrightarrow> cells h2 a = cells h a" using old1 by (simp add: h2_def)
    \<comment> \<open>the new value\<close>
    define h3 where "h3 = h2\<lparr>cells := (cells h2)(?b \<mapsto> zs2[p := x])\<rparr>"
    have w: "wr h2 (ArrayPtr_at tmp p) x = Some h3"
      using d l2 p sn by (simp add: wr_def ArrayPtr_at_def h2_def h3_def)
    have c3: "cells h3 ?b = Some (zs2[p := x])" by (simp add: h3_def)
    have old3: "\<And>a. a < next_addr h \<Longrightarrow> cells h3 a = cells h a" using old2 by (simp add: h3_def)
    \<comment> \<open>the suffix\<close>
    define zs4 where "zs4 = take (Suc ?s - (?s - p)) (zs2[p := x]) @
        take (?s - p) (drop p ?es) @ drop (Suc ?s) (zs2[p := x])"
    define h4 where "h4 = h3\<lparr>cells := (cells h3)(?b \<mapsto> zs4)\<rparr>"
    have "std_copy_backward h3 (ptr_add (begin_it v) p) (ptr_add (begin_it v) ?s) (Ptr ?b (Suc ?s)) =
        Some (h3\<lparr>cells := (cells h3)(?b \<mapsto>
           take (Suc ?s - (?s - p)) (zs2[p := x]) @ take (?s - p) (drop p ?es) @
           drop (Suc ?s) (zs2[p := x]))\<rparr>)"
      apply (rule std_copy_backward_from_live[OF v p _ c3 _ _ old3]) using l2 sn by auto
    then have cb: "std_copy_backward h3 ?pos (end_it v) (ptr_add (ArrayPtr_at tmp ?s) 1) = Some h4"
      using d by (simp add: end_it_eq ArrayPtr_at_def h4_def zs4_def)
    have c4: "cells h4 ?b = Some zs4" by (simp add: h4_def)
    have n4: "next_addr h4 = Suc ?b" using n1 by (simp add: h4_def h3_def h2_def)
    have old4: "\<And>a. a < next_addr h \<Longrightarrow> cells h4 a = cells h a" using old3 by (simp add: h4_def)
    obtain h5 where h5: "ArrayPtr_dtor h4 (items_m v) = Some h5"
      "\<forall>b. next_addr h \<le> b \<longrightarrow> cells h5 b = cells h4 b" "next_addr h5 = next_addr h4"
      using ArrayPtr_dtor_old[OF v old4] by blast
    have st: "size_t (?s + 1) = ?s + 1"
      using valid_capacity_le[OF v] valid_size_le[OF v] max_array_len_Suc[of ?s]
      by (intro size_t_id) simp
    let ?v1 = "v\<lparr>items_m := tmp, capacity_m := ?n, size_m := ?s + 1\<rparr>"
    have res: "Insert nd ctor h v ?pos x = Return (ptr_add (begin_it ?v1) p) (h5, ?v1)"
      using pre full nc Inr r cp w cb h5(1) st
      by (simp add: Insert_def ArrayPtr_swap_eq Let_def)
    have c5: "cells h5 ?b = Some zs4" using h5(2) c4 by simp
    have sp: "Suc ?s - (?s - p) = Suc p" using p by simp
    have tz: "take (Suc p) (zs2[p := x]) = take p ?es @ [x]"
      using p le l2 sn by (simp add: zs2_def take_Suc_conv_app_nth list_update_append nth_append)
    have l4: "length zs4 = ?n" using p le l2 sn by (simp add: zs4_def sp)
    have e4: "take (Suc ?s) zs4 = take p ?es @ x # drop p ?es"
      using p le l2 sn by (simp add: zs4_def sp tz Suc_diff_le)
    have "valid h5 ?v1"
      using c5 h5(3) n4 d l4 sn by (simp add: valid_def)
    moreover have "elems h5 ?v1 = take p ?es @ x # drop p ?es"
      using c5 d e4 by (simp add: elems_def buffer_def)
    ultimately show ?thesis using res by auto
  qed
qed

lemma Insert_core:
  assumes v: "valid h v" and p: "p \<le> size_m v"
  shows "(\<exists>h' v'. Insert nd ctor h v (ptr_add (begin_it v) p) x =
             Return (ptr_add (begin_it v') p) (h', v') \<and> valid h' v' \<and>
           elems h' v' = take p (elems h v) @ x # drop p (elems h v) \<and>
           size_m v' = size_m v + 1)
         \<or> (\<exists>e. Insert nd ctor h v (ptr_add (begin_it v) p) x = Throw e (h, v) \<and>
               size_m v = capacity_m v \<and>
               ArrayPtr_new ctor h (max (2 * capacity_m v) 1) = Inl e)"
proof (cases "size_m v = capacity_m v")
  case True
  from Insert_realloc[OF v p True, of nd ctor x] True show ?thesis by blast
next
  case False
  from Insert_in_place[OF v p False, of nd ctor x] show ?thesis by blast
qed

text \<open>
  C4. On a valid sequence, \<open>Insert\<close> of \<open>x\<close> at position \<open>begin() + p\<close> with \<open>p \<le> size\<close>
  either returns the iterator \<open>begin() + p\<close> of the grown sequence, whose elements are the
  original ones with \<open>x\<close> put in at index \<open>p\<close>, and then \<open>Erase\<close> at that iterator returns a
  valid sequence of the original size whose elements are, one by one, the original elements;
  or \<open>Insert\<close> throws because the sequence was full and the allocation failed, with nothing
  changed.
\<close>

theorem Insert_Erase_roundtrip:
  assumes "valid h v" and "p \<le> GetSize v"
  shows "(\<exists>h1 v1 it. Insert nd ctor h v (ptr_add (begin_it v) p) x = Return it (h1, v1) \<and>
            it = ptr_add (begin_it v1) p \<and> valid h1 v1 \<and> GetSize v1 = GetSize v + 1 \<and>
            elems h1 v1 = take p (elems h v) @ x # drop p (elems h v) \<and>
            At_value h1 v1 p = Some x \<and>
            (\<exists>h2 v2 it2. Erase nd h1 v1 it = Return it2 (h2, v2) \<and> valid h2 v2 \<and>
               GetSize v2 = GetSize v \<and> elems h2 v2 = elems h v \<and>
               (\<forall>i<GetSize v. \<exists>y. At_value h v i = Some y \<and> At_value h2 v2 i = Some y)))
         \<or> (\<exists>e. Insert nd ctor h v (ptr_add (begin_it v) p) x = Throw e (h, v) \<and>
               GetSize v = GetCapacity v \<and>
               ArrayPtr_new ctor h (max (2 * GetCapacity v) 1) = Inl e)"
proof -
  have p: "p \<le> size_m v" using assms(2) by (simp add: GetSize_def)
  have le: "length (elems h v) = size_m v" by (rule length_elems[OF assms(1)])
  from Insert_core[OF assms(1) p, of nd ctor x] show ?thesis
  proof (elim disjE exE conjE)
    fix h1 v1
    assume r1: "Insert nd ctor h v (ptr_add (begin_it v) p) x = Return (ptr_add (begin_it v1) p) (h1, v1)"
      and v1: "valid h1 v1"
      and e1: "elems h1 v1 = take p (elems h v) @ x # drop p (elems h v)"
      and s1: "size_m v1 = size_m v + 1"
    have p1: "p < size_m v1" using p s1 by simp
    have a1: "At_value h1 v1 p = Some x"
      using At_value_valid[OF v1 p1] e1 p le by (simp add: nth_append)
    from Erase_core[OF v1 p1, of nd]
    obtain h2 v2 where r2: "Erase nd h1 v1 (ptr_add (begin_it v1) p) = Return (ptr_add (begin_it v2) p) (h2, v2)"
      and v2: "valid h2 v2"
      and e2: "elems h2 v2 = take p (elems h1 v1) @ drop (Suc p) (elems h1 v1)"
      and s2: "size_m v2 = size_m v1 - 1"
      by blast
    have e: "elems h2 v2 = elems h v" using e1 e2 p le by simp
    have s: "size_m v2 = size_m v" using s1 s2 by simp
    have a2: "\<exists>y. At_value h v i = Some y \<and> At_value h2 v2 i = Some y" if "i < size_m v" for i
      using At_value_valid[OF assms(1) that] At_value_valid[OF v2, of i] that s e by simp
    have "\<exists>h2 v2 it2. Erase nd h1 v1 (ptr_add (begin_it v1) p) = Return it2 (h2, v2) \<and> valid h2 v2 \<and>
               GetSize v2 = GetSize v \<and> elems h2 v2 = elems h v \<and>
               (\<forall>i<GetSize v. \<exists>y. At_value h v i = Some y \<and> At_value h2 v2 i = Some y)"
      using r2 v2 s e a2 by (auto simp add: GetSize_def)
    then show ?thesis using r1 v1 s1 e1 a1 by (simp add: GetSize_def)
  next
    fix e
    assume "Insert nd ctor h v (ptr_add (begin_it v) p) x = Throw e (h, v)"
      "size_m v = capacity_m v" "ArrayPtr_new ctor h (max (2 * capacity_m v) 1) = Inl e"
    then show ?thesis by (simp add: GetSize_def GetCapacity_def)
  qed
qed

text \<open>
  The theorem at \<open>{1, 2, 3}\<close> with capacity 3, inserting 9 at index 1 (reallocation), and at
  \<open>{1, 2, 4}\<close> with capacity 4, inserting 9 at the end (in place).
\<close>

theorem Insert_Erase_roundtrip_witness:
  "valid ex_heap ex_vec \<and> 1 \<le> GetSize ex_vec \<and>
   (\<exists>h1 v1 it. Insert False (Some 0) ex_heap ex_vec (Ptr 0 1) 9 = Return it (h1, v1) \<and>
      elems h1 v1 = [1, 9, 2, 3] \<and>
      (\<exists>h2 v2 it2. Erase False h1 v1 it = Return it2 (h2, v2) \<and> elems h2 v2 = [1, 2, 3])) \<and>
   valid ex_heap2 ex_vec2 \<and> 3 \<le> GetSize ex_vec2 \<and>
   (\<exists>h1 v1 it. Insert False (Some 0) ex_heap2 ex_vec2 (Ptr 1 3) 9 = Return it (h1, v1) \<and>
      elems h1 v1 = [1, 2, 4, 9] \<and>
      (\<exists>h2 v2 it2. Erase False h1 v1 it = Return it2 (h2, v2) \<and> elems h2 v2 = [1, 2, 4]))"
proof -
  have s: "GetSize ex_vec = 3" "GetCapacity ex_vec = 3"
    by (simp_all add: GetSize_def GetCapacity_def ex_vec_def)
  have b: "begin_it ex_vec = Ptr 0 0" by (simp add: begin_it_def ArrayPtr_at_def ex_vec_def)
  have e: "elems ex_heap ex_vec = [1, 2, 3]"
    by (simp add: elems_def buffer_def ex_heap_def ex_vec_def)
  have a: "ArrayPtr_new (Some 0) ex_heap (max (2 * GetCapacity ex_vec) 1) \<noteq> Inl e" for e
    by (simp add: ArrayPtr_new_def new_array_def ex_heap_def s max_array_len_def)
  have 1: "\<exists>h1 v1 it. Insert False (Some 0) ex_heap ex_vec (Ptr 0 1) 9 = Return it (h1, v1) \<and>
      elems h1 v1 = [1, 9, 2, 3] \<and>
      (\<exists>h2 v2 it2. Erase False h1 v1 it = Return it2 (h2, v2) \<and> elems h2 v2 = [1, 2, 3])"
    using Insert_Erase_roundtrip[OF valid_ex, of 1 False "Some 0" 9] s b e a by auto
  have v2: "valid ex_heap2 ex_vec2"
    by (simp add: valid_def ex_heap2_def ex_vec2_def max_array_len_def)
  have s2: "GetSize ex_vec2 = 3" "GetCapacity ex_vec2 = 4"
    by (simp_all add: GetSize_def GetCapacity_def ex_vec2_def)
  have b2: "begin_it ex_vec2 = Ptr 1 0" by (simp add: begin_it_def ArrayPtr_at_def ex_vec2_def)
  have e2: "elems ex_heap2 ex_vec2 = [1, 2, 4]"
    by (simp add: elems_def buffer_def ex_heap2_def ex_vec2_def)
  have 2: "\<exists>h1 v1 it. Insert False (Some 0) ex_heap2 ex_vec2 (Ptr 1 3) 9 = Return it (h1, v1) \<and>
      elems h1 v1 = [1, 2, 4, 9] \<and>
      (\<exists>h2 v2 it2. Erase False h1 v1 it = Return it2 (h2, v2) \<and> elems h2 v2 = [1, 2, 4])"
    using Insert_Erase_roundtrip[OF v2, of 3 False "Some 0" 9] s2 b2 e2 by auto
  show ?thesis using valid_ex v2 s s2 1 2 by simp
qed

text \<open>The comparison operators on two valid sequences of one heap.\<close>

lemma elems_empty: "valid h v \<Longrightarrow> size_m v = 0 \<Longrightarrow> elems h v = []"
  using length_elems[of h v] by simp

lemma std_equal_valid:
  assumes l: "valid h l" and r: "valid h r" and s: "size_m l = size_m r"
  shows "std_equal h (begin_it l) (end_it l) (begin_it r) = Some (elems h l = elems h r)"
proof (cases "size_m l = 0")
  case True
  then show ?thesis using s elems_empty[OF l] elems_empty[OF r]
    by (simp add: std_equal_def begin_it_empty end_it_eq)
next
  case False
  from l show ?thesis
  proof (cases rule: valid_cases)
    case null
    then show ?thesis using False by simp
  next
    case lb: (block a xs)
    from r show ?thesis
    proof (cases rule: valid_cases)
      case null
      then show ?thesis using False s by simp
    next
      case rb: (block b ys)
      have "equal_loop (size_m l) h (Ptr a 0) (Ptr b 0) =
          Some (take (size_m l) (drop 0 xs) = take (size_m l) (drop 0 ys))"
        apply (rule equal_loop_cells[OF lb(3) rb(3)]) using lb rb s by auto
      then show ?thesis using False s lb rb
        by (simp add: std_equal_def end_it_eq begin_it_block elems_block[OF lb(1,3)]
            elems_block[OF rb(1,3)])
    qed
  qed
qed

lemma op_eq_valid:
  assumes l: "valid h l" and r: "valid h r"
  shows "op_eq h l r = Some (elems h l = elems h r)"
proof (cases "size_m l = size_m r")
  case True
  then show ?thesis using std_equal_valid[OF l r] by (simp add: op_eq_def GetSize_def)
next
  case False
  then have "elems h l \<noteq> elems h r" using length_elems[OF l] length_elems[OF r] by metis
  then show ?thesis using False by (simp add: op_eq_def GetSize_def)
qed

lemma op_lt_valid:
  assumes l: "valid h l" and r: "valid h r"
  shows "op_lt h l r = Some (lex_less (elems h l) (elems h r))"
proof (cases "size_m l = 0")
  case True
  have "(elems h r \<noteq> []) = (size_m r \<noteq> 0)"
    using length_elems[OF r] length_0_conv[of "elems h r"] by simp
  then show ?thesis using True elems_empty[OF l]
    by (simp add: op_lt_def std_lexicographical_compare_def begin_it_empty end_it_eq
        insert_pos_ok(2)[OF r, of "size_m r"])
next
  case nl: False
  then obtain n where n: "size_m l = Suc n" by (cases "size_m l") auto
  have dl: "ptr_diff (end_it l) (begin_it l) = Some (size_m l)"
    using insert_pos_ok(2)[OF l, of "size_m l"] by (simp add: end_it_eq)
  have dr: "ptr_diff (end_it r) (begin_it r) = Some (size_m r)"
    using insert_pos_ok(2)[OF r, of "size_m r"] by (simp add: end_it_eq)
  show ?thesis
  proof (cases "size_m r = 0")
    case True
    then show ?thesis using n dl dr elems_empty[OF r]
      by (simp add: op_lt_def std_lexicographical_compare_def lex_less_Nil2)
  next
    case nr: False
    from l show ?thesis
    proof (cases rule: valid_cases)
      case null
      then show ?thesis using nl by simp
    next
      case lb: (block a xs)
      from r show ?thesis
      proof (cases rule: valid_cases)
        case null
        then show ?thesis using nr by simp
      next
        case rb: (block b ys)
        have "lex_loop (size_m l) (size_m r) h (Ptr a 0) (Ptr b 0) =
            Some (lex_less (take (size_m l) (drop 0 xs)) (take (size_m r) (drop 0 ys)))"
          apply (rule lex_loop_cells[OF lb(3) rb(3)]) using lb rb by auto
        then show ?thesis using nl nr dl dr lb rb
          by (simp add: op_lt_def std_lexicographical_compare_def begin_it_block
              elems_block[OF lb(1,3)] elems_block[OF rb(1,3)])
      qed
    qed
  qed
qed

lemma elems_eq_iff:
  assumes l: "valid h l" and r: "valid h r"
  shows "(elems h l = elems h r) =
     (GetSize l = GetSize r \<and> (\<forall>i<GetSize l. At_value h l i = At_value h r i))"
proof
  assume e: "elems h l = elems h r"
  then have s: "size_m l = size_m r" using length_elems[OF l] length_elems[OF r] by simp
  have "At_value h l i = At_value h r i" if "i < size_m l" for i
    using At_value_valid[OF l that] At_value_valid[OF r, of i] that s e by simp
  then show "GetSize l = GetSize r \<and> (\<forall>i<GetSize l. At_value h l i = At_value h r i)"
    using s by (simp add: GetSize_def)
next
  assume a: "GetSize l = GetSize r \<and> (\<forall>i<GetSize l. At_value h l i = At_value h r i)"
  then have s: "size_m l = size_m r" by (simp add: GetSize_def)
  have "elems h l ! i = elems h r ! i" if "i < size_m l" for i
    using At_value_valid[OF l that] At_value_valid[OF r, of i] that s a
    by (simp add: GetSize_def)
  then show "elems h l = elems h r"
    using s length_elems[OF l] length_elems[OF r] by (simp add: list_eq_iff_nth_eq)
qed

text \<open>
  C8. For two valid sequences, \<open>operator==\<close> is true exactly when the sizes agree and every
  position reads the same value in both; \<open>operator<\<close> is the lexicographic order of the two
  element lists under the element type's \<open><\<close>; and \<open>!=\<close>, \<open><=\<close>, \<open>>\<close>, \<open>>=\<close> are the negation of
  \<open>==\<close>, the negation of \<open><\<close> with the arguments exchanged, \<open><\<close> with the arguments
  exchanged, and the negation of \<open><\<close>.
\<close>

theorem comparison_spec:
  assumes "valid h l" and "valid h r"
  shows "op_eq h l r =
           Some (GetSize l = GetSize r \<and> (\<forall>i<GetSize l. At_value h l i = At_value h r i)) \<and>
         op_lt h l r = Some (lex_less (elems h l) (elems h r)) \<and>
         op_neq h l r = Some (\<not> (elems h l = elems h r)) \<and>
         op_le h l r = Some (\<not> lex_less (elems h r) (elems h l)) \<and>
         op_gt h l r = Some (lex_less (elems h r) (elems h l)) \<and>
         op_ge h l r = Some (\<not> lex_less (elems h l) (elems h r)) \<and>
         op_neq h l r = map_option Not (op_eq h l r) \<and>
         op_le h l r = map_option Not (op_lt h r l) \<and>
         op_gt h l r = op_lt h r l \<and>
         op_ge h l r = map_option Not (op_lt h l r)"
  using op_eq_valid[OF assms] op_lt_valid[OF assms] op_lt_valid[OF assms(2,1)]
    elems_eq_iff[OF assms]
  by (simp add: op_neq_def op_le_def op_gt_def op_ge_def)

text \<open>The theorem at \<open>{1, 2, 3}\<close> against \<open>{1, 2, 4}\<close> and against itself.\<close>

theorem comparison_spec_witness:
  "valid ex_heap2 ex_vec \<and> valid ex_heap2 ex_vec2 \<and>
   op_eq ex_heap2 ex_vec ex_vec2 = Some False \<and> op_eq ex_heap2 ex_vec ex_vec = Some True \<and>
   op_lt ex_heap2 ex_vec ex_vec2 = Some True \<and> op_neq ex_heap2 ex_vec ex_vec2 = Some True \<and>
   op_le ex_heap2 ex_vec ex_vec2 = Some True \<and> op_gt ex_heap2 ex_vec ex_vec2 = Some False \<and>
   op_ge ex_heap2 ex_vec ex_vec2 = Some False"
proof -
  have v1: "valid ex_heap2 ex_vec"
    by (simp add: valid_def ex_heap2_def ex_vec_def max_array_len_def)
  have v2: "valid ex_heap2 ex_vec2"
    by (simp add: valid_def ex_heap2_def ex_vec2_def max_array_len_def)
  have e1: "elems ex_heap2 ex_vec = [1, 2, 3]"
    by (simp add: elems_def buffer_def ex_heap2_def ex_vec_def)
  have e2: "elems ex_heap2 ex_vec2 = [1, 2, 4]"
    by (simp add: elems_def buffer_def ex_heap2_def ex_vec2_def)
  have s: "GetSize ex_vec = 3" "GetSize ex_vec2 = 3"
    by (simp_all add: GetSize_def ex_vec_def ex_vec2_def)
  have a: "At_value ex_heap2 ex_vec 2 = Some 3" "At_value ex_heap2 ex_vec2 2 = Some 4"
    by (simp_all add: At_value_def At_def ArrayPtr_at_def rd_def ex_heap2_def ex_vec_def ex_vec2_def)
  have ne: "\<not> (\<forall>i<3. At_value ex_heap2 ex_vec i = At_value ex_heap2 ex_vec2 i)"
    using a by (intro notI) (auto dest: spec[of _ 2])
  show ?thesis
    using comparison_spec[OF v1 v2] comparison_spec[OF v1 v1] v1 v2 e1 e2 s ne
    by simp
qed

end
